theory Spec2Isabelle
  imports Complex_Main "HOL-Library.AList" "HOL-Library.Multiset"
begin

section \<open>Errors and results\<close>

text \<open>
  A Python exception is a value of the type \<open>error\<close>, and a function that can raise returns
  \<open>Inl\<close> of the exception or \<open>Inr\<close> of its result. The \<open>while True\<close> loop of \<open>find\<close> is the
  only loop of the program that is not bounded by the length of a list; a computation that runs
  it has an \<open>option\<close> around its result, and \<open>None\<close> stands for a loop that never ends.
  \<open>RuntimeError\<close> is what \<open>torch.cat\<close> raises on an empty list of tensors.
\<close>

datatype error = IndexError | ValueError | ZeroDivisionError | RuntimeError

definition bind_res :: "(error + 'a) option \<Rightarrow> ('a \<Rightarrow> (error + 'b) option) \<Rightarrow> (error + 'b) option" where
  "bind_res m f = (case m of None \<Rightarrow> None | Some (Inl e) \<Rightarrow> Some (Inl e) | Some (Inr x) \<Rightarrow> f x)"

section \<open>Union-find\<close>

text \<open>
  The class \<open>UnionFind\<close> of both files: the state is the list \<open>self.parents\<close>, \<open>UnionFind n\<close>
  is the state after \<open>__init__\<close>, \<open>uf_find\<close> is the method \<open>find\<close> and \<open>uf_union\<close> the method
  \<open>union\<close>, which returns the new state. Indices are natural numbers, as the callers pass
  positions obtained from \<open>enumerate\<close>; reading \<open>self.parents[i]\<close> past the end of the list
  raises \<open>IndexError\<close>. \<open>uf_unions\<close> runs a sequence of \<open>union\<close> calls. \<open>rooted p i r\<close> says
  that following the parent links from \<open>i\<close> reaches the root \<open>r\<close> after finitely many steps.
\<close>

definition UnionFind :: "nat \<Rightarrow> nat list" where
  "UnionFind n = [0..<n]"

partial_function (option) uf_find :: "nat list \<Rightarrow> nat \<Rightarrow> (error + nat) option" where
  "uf_find parents i_parent =
     (if i_parent < length parents
      then (if i_parent \<noteq> parents ! i_parent
            then uf_find parents (parents ! i_parent)
            else Some (Inr i_parent))
      else Some (Inl IndexError))"

declare uf_find.simps [code]

definition uf_union :: "nat list \<Rightarrow> nat \<Rightarrow> nat \<Rightarrow> (error + nat list) option" where
  "uf_union parents i j =
     bind_res (uf_find parents i) (\<lambda>ri.
     bind_res (uf_find parents j) (\<lambda>rj.
       if ri \<noteq> rj
       then bind_res (uf_find parents i) (\<lambda>i_parent. Some (Inr (parents[i_parent := j])))
       else Some (Inr parents)))"

fun uf_unions :: "nat list \<Rightarrow> (nat \<times> nat) list \<Rightarrow> (error + nat list) option" where
  "uf_unions parents [] = Some (Inr parents)"
| "uf_unions parents ((i, j) # calls) =
     bind_res (uf_union parents i j) (\<lambda>parents'. uf_unions parents' calls)"

inductive rooted :: "nat list \<Rightarrow> nat \<Rightarrow> nat \<Rightarrow> bool" where
  root: "i < length p \<Longrightarrow> p ! i = i \<Longrightarrow> rooted p i i"
| step: "i < length p \<Longrightarrow> p ! i \<noteq> i \<Longrightarrow> rooted p (p ! i) r \<Longrightarrow> rooted p i r"

definition uf_inv :: "nat list \<Rightarrow> bool" where
  "uf_inv p = (\<forall>i<length p. \<exists>r. rooted p i r)"

lemma bind_res_simps [simp]:
  "bind_res None f = None"
  "bind_res (Some (Inl e)) f = Some (Inl e)"
  "bind_res (Some (Inr x)) f = f x"
  by (simp_all add: bind_res_def)

lemma rooted_root: "rooted p i r \<Longrightarrow> r < length p \<and> p ! r = r"
  by (induction rule: rooted.induct) auto

lemma rooted_lt: "rooted p i r \<Longrightarrow> i < length p"
  by (induction rule: rooted.induct) auto

lemma rooted_unique: "rooted p i r \<Longrightarrow> rooted p i r' \<Longrightarrow> r = r'"
proof (induction arbitrary: r' rule: rooted.induct)
  case (root i p)
  from root.prems root.hyps show ?case by (cases rule: rooted.cases) auto
next
  case (step i p r)
  from step.prems step.hyps show ?case by (cases rule: rooted.cases) (auto intro: step.IH)
qed

lemma rooted_find: "rooted p i r \<Longrightarrow> uf_find p i = Some (Inr r)"
proof (induction rule: rooted.induct)
  case (root i p)
  then show ?case by (subst uf_find.simps) simp
next
  case (step i p r)
  then show ?case by (subst uf_find.simps) simp
qed

lemma rooted_update_other:
  assumes "rooted p k rk" "rk \<noteq> ri" "p ! ri = ri"
  shows "rooted (p[ri := j]) k rk"
  using assms
proof (induction rule: rooted.induct)
  case (root i p)
  then have "i < length (p[ri := j])" "p[ri := j] ! i = i" by simp_all
  then show ?case by (rule rooted.root)
next
  case (step i p r)
  have "i \<noteq> ri" using step by auto
  then have "i < length (p[ri := j])" "p[ri := j] ! i \<noteq> i" "rooted (p[ri := j]) (p[ri := j] ! i) r"
    using step by simp_all
  then show ?case by (rule rooted.step)
qed

lemma rooted_update_same:
  assumes "rooted p k ri" "rooted p j rj" "rj \<noteq> ri"
  shows "rooted (p[ri := j]) k rj"
  using assms
proof (induction rule: rooted.induct)
  case (root i p)
  have j': "rooted (p[i := j]) j rj"
    using root.prems root.hyps by (simp add: rooted_update_other)
  have "rooted p i i" using root.hyps by (rule rooted.root)
  with root.prems have "j \<noteq> i" using rooted_unique by blast
  moreover have "j < length p" using root.prems rooted_lt by blast
  ultimately have "i < length (p[i := j])" "p[i := j] ! i \<noteq> i" "rooted (p[i := j]) (p[i := j] ! i) rj"
    using root.hyps j' by simp_all
  then show ?case by (rule rooted.step)
next
  case (step i p r)
  have "i \<noteq> r" using step.hyps rooted_root by blast
  then have "i < length (p[r := j])" "p[r := j] ! i \<noteq> i" "rooted (p[r := j]) (p[r := j] ! i) rj"
    using step by simp_all
  then show ?case by (rule rooted.step)
qed

lemma rooted_same_iff:
  "rooted p a ra \<Longrightarrow> rooted p b rb \<Longrightarrow> (\<exists>r. rooted p a r \<and> rooted p b r) \<longleftrightarrow> ra = rb"
  using rooted_unique by blast

lemma uf_inv_update:
  assumes "uf_inv p" "rooted p i ri" "rooted p j rj" "ri \<noteq> rj"
  shows "uf_inv (p[ri := j])"
  unfolding uf_inv_def
proof (intro allI impI)
  fix k assume "k < length (p[ri := j])"
  then obtain rk where rk: "rooted p k rk" using assms(1) by (auto simp: uf_inv_def)
  have ri: "p ! ri = ri" using assms(2) rooted_root by blast
  show "\<exists>r. rooted (p[ri := j]) k r"
  proof (cases "rk = ri")
    case True
    with rk assms show ?thesis by (blast intro: rooted_update_same)
  next
    case False
    with rk ri show ?thesis by (blast intro: rooted_update_other)
  qed
qed

lemma rooted_init: "i < n \<Longrightarrow> rooted (UnionFind n) i i"
  by (rule rooted.root) (simp_all add: UnionFind_def)

lemma uf_inv_rooted: "uf_inv p \<Longrightarrow> i < length p \<Longrightarrow> \<exists>r. rooted p i r"
  by (simp add: uf_inv_def)

lemma uf_inv_init: "uf_inv (UnionFind n)"
  using rooted_init by (auto simp: uf_inv_def UnionFind_def)

lemma uf_union_ok:
  assumes "uf_inv p" "i < length p" "j < length p"
  shows "\<exists>p'. uf_union p i j = Some (Inr p') \<and> uf_inv p' \<and> length p' = length p"
proof -
  from assms have "\<exists>ri. rooted p i ri" "\<exists>rj. rooted p j rj"
    by (simp_all add: uf_inv_def)
  then obtain ri rj where r: "rooted p i ri" "rooted p j rj" by blast
  then have f: "uf_find p i = Some (Inr ri)" "uf_find p j = Some (Inr rj)"
    by (simp_all add: rooted_find)
  show ?thesis
  proof (cases "ri = rj")
    case True
    with f assms show ?thesis by (simp add: uf_union_def)
  next
    case False
    with f have "uf_union p i j = Some (Inr (p[ri := j]))" by (simp add: uf_union_def)
    moreover have "uf_inv (p[ri := j])" using assms(1) r False by (rule uf_inv_update)
    ultimately show ?thesis by simp
  qed
qed

lemma uf_unions_ok:
  assumes "uf_inv p" "\<forall>(i, j) \<in> set calls. i < length p \<and> j < length p"
  shows "\<exists>p'. uf_unions p calls = Some (Inr p') \<and> uf_inv p' \<and> length p' = length p"
  using assms
proof (induction calls arbitrary: p)
  case Nil
  then show ?case by simp
next
  case (Cons c calls)
  obtain i j where c: "c = (i, j)" by (cases c)
  with Cons.prems obtain p' where p': "uf_union p i j = Some (Inr p')" "uf_inv p'" "length p' = length p"
    using uf_union_ok[of p i j] by auto
  with Cons.prems have "\<forall>(i, j) \<in> set calls. i < length p' \<and> j < length p'" by simp
  from Cons.IH[OF p'(2) this] p' c show ?case by simp
qed

lemma rooted_no_cycle:
  "rooted p i r \<Longrightarrow> p ! i \<noteq> i \<Longrightarrow> 0 < k \<Longrightarrow> ((!) p ^^ k) i \<noteq> i"
proof (induction arbitrary: k rule: rooted.induct)
  case (root i p)
  then show ?case by simp
next
  case (step i p r)
  show ?case
  proof
    assume cyc: "((!) p ^^ k) i = i"
    from step.prems obtain k' where k: "k = Suc k'" by (cases k) auto
    show False
    proof (cases "p ! (p ! i) = p ! i")
      case True
      then have "((!) p ^^ m) (p ! i) = p ! i" for m by (induction m) simp_all
      then have "((!) p ^^ k) i = p ! i" unfolding k by (simp add: funpow_swap1)
      with cyc step.hyps show False by simp
    next
      case False
      have "((!) p ^^ k) (p ! i) = p ! (((!) p ^^ k) i)" by (simp add: funpow_swap1)
      with cyc have "((!) p ^^ k) (p ! i) = p ! i" by simp
      with step.IH[OF False step.prems(2)] show False by simp
    qed
  qed
qed

text \<open>
  C10. Start from \<open>UnionFind n\<close> and run any finite sequence of \<open>union(i, j)\<close> calls with
  \<open>i, j < n\<close>. The calls all return, the parents array keeps its length, following parent
  pointers from any index never comes back to that index unless it is a root pointing to itself,
  and every \<open>find(i)\<close> returns a root.
\<close>

theorem uf_unions_no_cycle_find_returns:
  assumes "\<forall>(i, j) \<in> set calls. i < n \<and> j < n"
  shows "\<exists>p. uf_unions (UnionFind n) calls = Some (Inr p) \<and> length p = n \<and>
           (\<forall>i<n. \<forall>k>0. ((!) p ^^ k) i = i \<longrightarrow> p ! i = i) \<and>
           (\<forall>i<n. \<exists>r<n. uf_find p i = Some (Inr r) \<and> p ! r = r)"
proof -
  have "length (UnionFind n) = n" by (simp add: UnionFind_def)
  with assms uf_unions_ok[OF uf_inv_init, of calls n]
  obtain p where p: "uf_unions (UnionFind n) calls = Some (Inr p)" "uf_inv p" "length p = n"
    by auto
  have root: "\<exists>r. rooted p i r" if "i < n" for i using that p by (auto simp: uf_inv_def)
  have "((!) p ^^ k) i = i \<longrightarrow> p ! i = i" if "i < n" "0 < k" for i k
    using root[OF that(1)] rooted_no_cycle[of p i _ k] that(2) by blast
  moreover have "\<exists>r<n. uf_find p i = Some (Inr r) \<and> p ! r = r" if "i < n" for i
    using root[OF that] rooted_find rooted_root p(3) by blast
  ultimately show ?thesis using p by blast
qed


theorem uf_unions_no_cycle_find_returns_witness:
  "uf_unions (UnionFind 3) [(0, 1), (1, 2), (0, 2)] = Some (Inr [1, 2, 2]) \<and>
   (\<exists>r<3. uf_find [1, 2, 2] 0 = Some (Inr r) \<and> [1, 2, 2] ! r = r) \<and>
   ((!) [1, 2, 2] ^^ 2) 0 \<noteq> (0::nat)"
proof -
  have h: "\<forall>(i, j) \<in> set [(0::nat, 1::nat), (1, 2), (0, 2)]. i < 3 \<and> j < 3" by simp
  from uf_unions_no_cycle_find_returns[OF h]
  obtain p where p: "uf_unions (UnionFind 3) [(0, 1), (1, 2), (0, 2)] = Some (Inr p)"
    and cyc: "\<forall>i<3. \<forall>k>0. ((!) p ^^ k) i = i \<longrightarrow> p ! i = i"
    and fnd: "\<forall>i<3. \<exists>r<3. uf_find p i = Some (Inr r) \<and> p ! r = r"
    by blast
  have "uf_unions (UnionFind 3) [(0, 1), (1, 2), (0, 2)] = Some (Inr [1, 2, 2])"
    by code_simp
  with p have eq: "p = [1, 2, 2]" by simp
  from cyc[rule_format, of 0 2] have "((!) p ^^ 2) 0 = 0 \<longrightarrow> p ! 0 = 0" by simp
  with eq have "((!) [1, 2, 2] ^^ 2) 0 \<noteq> (0::nat)" by auto
  moreover from fnd[rule_format, of 0] eq
  have "\<exists>r<3. uf_find [1, 2, 2] 0 = Some (Inr r) \<and> [1, 2, 2] ! r = r"
    by simp
  ultimately show ?thesis using p eq by simp
qed

section \<open>Floating-point weights and Python's sort\<close>

text \<open>
  A matrix entry is a Python float: NaN, an infinity or a finite number. Finite numbers are
  real numbers here, so rounding is not modelled. \<open>py_ne\<close> is \<open>!=\<close> on floats, which holds
  between NaN and itself, and \<open>nan_key\<close> is the sort key
  \<open>float('-inf') if x[1] != x[1] else x[1]\<close>. \<open>py_sorted key reverse\<close> is
  \<open>sorted(_, key=key, reverse=reverse)\<close>: the sort is stable, and with \<open>reverse=True\<close>
  elements with equal keys still keep their original order.
\<close>

datatype xreal = NInf | Fin real | PInf

datatype pyfloat = NaN | Num xreal

instantiation xreal :: linorder
begin

fun less_eq_xreal :: "xreal \<Rightarrow> xreal \<Rightarrow> bool" where
  "less_eq_xreal NInf y = True"
| "less_eq_xreal (Fin a) NInf = False"
| "less_eq_xreal (Fin a) (Fin b) = (a \<le> b)"
| "less_eq_xreal (Fin a) PInf = True"
| "less_eq_xreal PInf NInf = False"
| "less_eq_xreal PInf (Fin b) = False"
| "less_eq_xreal PInf PInf = True"

definition less_xreal :: "xreal \<Rightarrow> xreal \<Rightarrow> bool" where
  "less_xreal x y = (x \<le> y \<and> \<not> y \<le> x)"

instance
proof
  fix x y z :: xreal
  show "(x < y) = (x \<le> y \<and> \<not> y \<le> x)" by (simp add: less_xreal_def)
  show "x \<le> x" by (cases x) simp_all
  show "x \<le> y \<Longrightarrow> y \<le> z \<Longrightarrow> x \<le> z" by (cases x; cases y; cases z) simp_all
  show "x \<le> y \<Longrightarrow> y \<le> x \<Longrightarrow> x = y" by (cases x; cases y) simp_all
  show "x \<le> y \<or> y \<le> x" by (cases x; cases y) auto
qed

end

definition py_ne :: "pyfloat \<Rightarrow> pyfloat \<Rightarrow> bool" where
  "py_ne a b = (a = NaN \<or> b = NaN \<or> a \<noteq> b)"

definition nan_key :: "pyfloat \<Rightarrow> xreal" where
  "nan_key w = (if py_ne w w then NInf else (case w of Num x \<Rightarrow> x | NaN \<Rightarrow> NInf))"

definition py_sorted :: "('a \<Rightarrow> 'k::linorder) \<Rightarrow> bool \<Rightarrow> 'a list \<Rightarrow> 'a list" where
  "py_sorted key reverse xs = (if reverse then rev (sort_key key (rev xs)) else sort_key key xs)"

section \<open>Spanning-tree extraction\<close>

text \<open>
  \<open>MST_edges\<close> of the span-as-batch file and \<open>prims_MST_edges\<close> of the baseline file are the
  same function up to the list of excluded words, so both are instances of \<open>MST_edges_with\<close>.
  The matrix is a list of rows. The dictionary \<open>pairs_to_weights\<close> is an association list in
  insertion order, which is the order \<open>items()\<close> yields; \<open>pairs_row\<close> is the inner loop over
  one enumerated row and \<open>pairs_rows\<close> the outer loop, where \<open>words[i]\<close> past the end of the word
  list raises \<open>IndexError\<close>. \<open>sorted_candidates\<close> is the sorted item list and \<open>kruskal_loop\<close>
  the loop over it, with the union-find state and the edge list passed along.
\<close>

definition excluded_wbaseline :: "string list" where
  "excluded_wbaseline =
     [[], [CHR 0x27], [CHR 0x27, CHR 0x27], '','', ''.'', '';'', ''!'', ''?'', '':'',
      [CHR 0x60, CHR 0x60], ''-LRB-'', ''-RRB-'']"

definition excluded_span :: "string list" where
  "excluded_span =
     [[], [CHR 0x27], [CHR 0x27, CHR 0x27], '','', ''.'', '':'',
      [CHR 0x60, CHR 0x60], ''-LRB-'', ''-RRB-'']"

type_synonym weights = "((nat \<times> nat) \<times> pyfloat) list"

fun pairs_row :: "string list \<Rightarrow> string list \<Rightarrow> nat \<Rightarrow> (nat \<times> pyfloat) list \<Rightarrow> weights \<Rightarrow> error + weights" where
  "pairs_row excluded words i_index [] pairs_to_weights = Inr pairs_to_weights"
| "pairs_row excluded words i_index ((j_index, dist_ij) # rest) pairs_to_weights =
     (if length words \<le> i_index then Inl IndexError
      else if words ! i_index \<in> set excluded
        then pairs_row excluded words i_index rest pairs_to_weights
      else if length words \<le> j_index then Inl IndexError
      else if words ! j_index \<in> set excluded
        then pairs_row excluded words i_index rest pairs_to_weights
      else pairs_row excluded words i_index rest
             (AList.update (i_index, j_index) dist_ij pairs_to_weights))"

fun pairs_rows :: "string list \<Rightarrow> string list \<Rightarrow> (nat \<times> pyfloat list) list \<Rightarrow> weights \<Rightarrow> error + weights" where
  "pairs_rows excluded words [] pairs_to_weights = Inr pairs_to_weights"
| "pairs_rows excluded words ((i_index, line) # rest) pairs_to_weights =
     (case pairs_row excluded words i_index (enumerate 0 line) pairs_to_weights of
        Inl e \<Rightarrow> Inl e
      | Inr pairs_to_weights' \<Rightarrow> pairs_rows excluded words rest pairs_to_weights')"

definition sorted_candidates :: "string list \<Rightarrow> pyfloat list list \<Rightarrow> string list \<Rightarrow> bool \<Rightarrow> error + weights" where
  "sorted_candidates excluded matrix words maximum_spanning_tree =
     (case pairs_rows excluded words (enumerate 0 matrix) [] of
        Inl e \<Rightarrow> Inl e
      | Inr pairs_to_weights \<Rightarrow>
          Inr (py_sorted (\<lambda>x. nan_key (snd x)) maximum_spanning_tree pairs_to_weights))"

fun kruskal_loop :: "(nat \<times> nat) list \<Rightarrow> nat list \<Rightarrow> (nat \<times> nat) list \<Rightarrow> (error + (nat \<times> nat) list) option" where
  "kruskal_loop [] parents edges = Some (Inr edges)"
| "kruskal_loop ((i_index, j_index) # rest) parents edges =
     bind_res (uf_find parents i_index) (\<lambda>ri.
     bind_res (uf_find parents j_index) (\<lambda>rj.
       if ri \<noteq> rj
       then bind_res (uf_union parents i_index j_index) (\<lambda>parents'.
              kruskal_loop rest parents' (edges @ [(i_index, j_index)]))
       else kruskal_loop rest parents edges))"

definition MST_edges_with :: "string list \<Rightarrow> pyfloat list list \<Rightarrow> string list \<Rightarrow> bool \<Rightarrow> (error + (nat \<times> nat) list) option" where
  "MST_edges_with excluded matrix words maximum_spanning_tree =
     (case sorted_candidates excluded matrix words maximum_spanning_tree of
        Inl e \<Rightarrow> Some (Inl e)
      | Inr cands \<Rightarrow> kruskal_loop (map fst cands) (UnionFind (length matrix)) [])"

definition prims_MST_edges :: "pyfloat list list \<Rightarrow> string list \<Rightarrow> bool \<Rightarrow> (error + (nat \<times> nat) list) option" where
  "prims_MST_edges = MST_edges_with excluded_wbaseline"

definition MST_edges :: "pyfloat list list \<Rightarrow> string list \<Rightarrow> bool \<Rightarrow> (error + (nat \<times> nat) list) option" where
  "MST_edges = MST_edges_with excluded_span"


subsection \<open>Connectivity of an edge list\<close>

definition conn :: "(nat \<times> nat) set \<Rightarrow> (nat \<times> nat) set" where
  "conn E = (E \<union> E\<inverse>)\<^sup>*"

definition cycle_free :: "(nat \<times> nat) list \<Rightarrow> bool" where
  "cycle_free es = (\<forall>k<length es. es ! k \<notin> conn (set (take k es) \<union> set (drop (Suc k) es)))"

definition kruskal_inv :: "nat list \<Rightarrow> (nat \<times> nat) list \<Rightarrow> bool" where
  "kruskal_inv p es =
     (uf_inv p \<and> (\<forall>(a, b) \<in> set es. a < length p \<and> b < length p) \<and>
      (\<forall>a<length p. \<forall>b<length p. (\<exists>r. rooted p a r \<and> rooted p b r) \<longleftrightarrow> (a, b) \<in> conn (set es)) \<and>
      cycle_free es \<and> (\<forall>k<length es. es ! k \<notin> conn (set (take k es))))"

lemma conn_refl [simp]: "(a, a) \<in> conn E"
  by (simp add: conn_def)

lemma conn_sym: "(a, b) \<in> conn E \<Longrightarrow> (b, a) \<in> conn E"
proof -
  have "sym ((E \<union> E\<inverse>)\<^sup>*)" by (rule sym_rtrancl) (simp add: sym_Un_converse)
  then show "(a, b) \<in> conn E \<Longrightarrow> (b, a) \<in> conn E" unfolding conn_def by (rule symD)
qed

lemma conn_trans: "(a, b) \<in> conn E \<Longrightarrow> (b, c) \<in> conn E \<Longrightarrow> (a, c) \<in> conn E"
  unfolding conn_def by (rule rtrancl_trans)

lemma conn_edge: "(a, b) \<in> E \<Longrightarrow> (a, b) \<in> conn E"
  unfolding conn_def by blast

lemma conn_mono: "E \<subseteq> F \<Longrightarrow> conn E \<subseteq> conn F"
  unfolding conn_def by (intro rtrancl_mono) blast

lemma conn_insert_cases:
  assumes "(a, b) \<in> conn (insert (i, j) E)"
  shows "(a, b) \<in> conn E \<or> ((a, i) \<in> conn E \<and> (j, b) \<in> conn E) \<or> ((a, j) \<in> conn E \<and> (i, b) \<in> conn E)"
proof -
  from assms have "(a, b) \<in> (insert (i, j) E \<union> (insert (i, j) E)\<inverse>)\<^sup>*" by (simp add: conn_def)
  then show ?thesis
  proof (induction rule: rtrancl_induct)
    case base
    show ?case by simp
  next
    case (step y z)
    from step.hyps(2) consider "(y, z) \<in> E \<union> E\<inverse>" | "y = i \<and> z = j" | "y = j \<and> z = i" by auto
    then show ?case
    proof cases
      case 1
      then have yz: "(y, z) \<in> conn E" unfolding conn_def by blast
      with step.IH show ?thesis by (blast intro: conn_trans)
    next
      case 2
      with step.IH show ?thesis by (blast intro: conn_trans conn_sym conn_refl)
    next
      case 3
      with step.IH show ?thesis by (blast intro: conn_trans conn_sym conn_refl)
    qed
  qed
qed

lemma conn_insert_iff:
  "(a, b) \<in> conn (insert (i, j) E) \<longleftrightarrow>
     (a, b) \<in> conn E \<or> ((a, i) \<in> conn E \<and> (j, b) \<in> conn E) \<or> ((a, j) \<in> conn E \<and> (i, b) \<in> conn E)"
proof
  assume "(a, b) \<in> conn (insert (i, j) E)"
  then show "(a, b) \<in> conn E \<or> ((a, i) \<in> conn E \<and> (j, b) \<in> conn E) \<or> ((a, j) \<in> conn E \<and> (i, b) \<in> conn E)"
    by (rule conn_insert_cases)
next
  let ?F = "insert (i, j) E"
  have sub: "conn E \<subseteq> conn ?F" by (rule conn_mono) blast
  have ij: "(i, j) \<in> conn ?F" by (rule conn_edge) simp
  then have ji: "(j, i) \<in> conn ?F" by (rule conn_sym)
  assume "(a, b) \<in> conn E \<or> ((a, i) \<in> conn E \<and> (j, b) \<in> conn E) \<or> ((a, j) \<in> conn E \<and> (i, b) \<in> conn E)"
  then consider "(a, b) \<in> conn E" | "(a, i) \<in> conn E" "(j, b) \<in> conn E" | "(a, j) \<in> conn E" "(i, b) \<in> conn E"
    by blast
  then show "(a, b) \<in> conn ?F"
  proof cases
    case 1
    with sub show ?thesis by blast
  next
    case 2
    with sub have "(a, i) \<in> conn ?F" "(j, b) \<in> conn ?F" by blast+
    with ij show ?thesis by (blast intro: conn_trans)
  next
    case 3
    with sub have "(a, j) \<in> conn ?F" "(i, b) \<in> conn ?F" by blast+
    with ji show ?thesis by (blast intro: conn_trans)
  qed
qed

lemma cycle_free_no_self_loop:
  assumes "cycle_free es" "(a, b) \<in> set es"
  shows "a \<noteq> b"
proof
  assume "a = b"
  from assms(2) obtain k where k: "k < length es" "es ! k = (a, b)" by (auto simp: in_set_conv_nth)
  with assms(1) have "(a, b) \<notin> conn (set (take k es) \<union> set (drop (Suc k) es))"
    by (auto simp: cycle_free_def)
  with \<open>a = b\<close> show False by simp
qed

lemma cycle_free_snoc:
  assumes cf: "cycle_free es" and new: "(i, j) \<notin> conn (set es)"
  shows "cycle_free (es @ [(i, j)])"
  unfolding cycle_free_def
proof (intro allI impI)
  fix k assume "k < length (es @ [(i, j)])"
  then consider "k < length es" | "k = length es" by fastforce
  then show "(es @ [(i, j)]) ! k \<notin> conn (set (take k (es @ [(i, j)])) \<union> set (drop (Suc k) (es @ [(i, j)])))"
  proof cases
    case 1
    let ?O = "set (take k es) \<union> set (drop (Suc k) es)"
    obtain c d where cd: "es ! k = (c, d)" by (cases "es ! k")
    have others: "set (take k (es @ [(i, j)])) \<union> set (drop (Suc k) (es @ [(i, j)])) = insert (i, j) ?O"
      using 1 by auto
    have notO: "(c, d) \<notin> conn ?O" using cf 1 cd by (auto simp: cycle_free_def)
    have sub: "conn ?O \<subseteq> conn (set es)"
      by (rule conn_mono) (auto dest: in_set_takeD in_set_dropD)
    have edge: "(c, d) \<in> conn (set es)" using 1 cd by (intro conn_edge) (metis nth_mem)
    have "(c, d) \<notin> conn (insert (i, j) ?O)"
    proof
      assume "(c, d) \<in> conn (insert (i, j) ?O)"
      then consider "(c, d) \<in> conn ?O" | "(c, i) \<in> conn ?O" "(j, d) \<in> conn ?O"
        | "(c, j) \<in> conn ?O" "(i, d) \<in> conn ?O"
        using conn_insert_cases by blast
      then show False
      proof cases
        case 1
        with notO show False by simp
      next
        case 2
        with sub have "(c, i) \<in> conn (set es)" "(j, d) \<in> conn (set es)" by blast+
        with edge have "(i, j) \<in> conn (set es)" by (blast intro: conn_trans conn_sym)
        with new show False by simp
      next
        case 3
        with sub have "(c, j) \<in> conn (set es)" "(i, d) \<in> conn (set es)" by blast+
        with edge have "(i, j) \<in> conn (set es)" by (blast intro: conn_trans conn_sym)
        with new show False by simp
      qed
    qed
    with 1 cd others show ?thesis by (simp add: nth_append)
  next
    case 2
    with new show ?thesis by simp
  qed
qed


subsection \<open>The greedy loop keeps a forest\<close>

lemma find_rooted:
  assumes "uf_find p i = Some (Inr r)"
  shows "rooted p i r"
proof -
  have "\<forall>r. res = Inr r \<longrightarrow> rooted p i r" if "uf_find p i = Some res" for res
  proof (rule uf_find.raw_induct[where P = "\<lambda>p i res. \<forall>r. res = Inr r \<longrightarrow> rooted p i r", OF _ that])
    fix f p i res
    assume IH: "\<And>p i res. f p i = Some res \<Longrightarrow> \<forall>r. res = Inr r \<longrightarrow> rooted p i r"
      and eq: "(if i < length p then if i \<noteq> p ! i then f p (p ! i) else Some (Inr i)
                else Some (Inl IndexError)) = Some res"
    show "\<forall>r. res = Inr r \<longrightarrow> rooted p i r"
    proof (intro allI impI)
      fix r assume r: "res = Inr r"
      with eq have lt: "i < length p" by (auto split: if_splits)
      show "rooted p i r"
      proof (cases "i = p ! i")
        case True
        with eq lt r have "r = i" by simp
        with True lt show ?thesis by (simp add: rooted.root)
      next
        case False
        with eq lt have "f p (p ! i) = Some res" by simp
        with IH r have "rooted p (p ! i) r" by blast
        moreover from False have "p ! i \<noteq> i" by simp
        ultimately show ?thesis using lt by (simp add: rooted.step)
      qed
    qed
  qed
  with assms show ?thesis by blast
qed

lemma find_out_of_range: "length p \<le> i \<Longrightarrow> uf_find p i = Some (Inl IndexError)"
  by (subst uf_find.simps) simp

lemma uf_find_total: "uf_inv p \<Longrightarrow> \<exists>r. uf_find p i = Some r"
proof (cases "i < length p")
  case True
  assume "uf_inv p"
  with True obtain r where "rooted p i r" by (auto simp: uf_inv_def)
  then show ?thesis by (auto dest: rooted_find)
next
  case False
  then show ?thesis by (simp add: find_out_of_range)
qed

lemma uf_union_roots:
  assumes "rooted p i ri" "rooted p j rj"
  shows "uf_union p i j = Some (Inr (if ri \<noteq> rj then p[ri := j] else p))"
  using assms by (simp add: uf_union_def rooted_find)

lemma kruskal_loop_step:
  assumes "rooted p i ri" "rooted p j rj"
  shows "kruskal_loop ((i, j) # rest) p es =
           (if ri \<noteq> rj then kruskal_loop rest (p[ri := j]) (es @ [(i, j)])
            else kruskal_loop rest p es)"
  using assms by (simp add: rooted_find uf_union_roots)

lemma kruskal_loop_find_fails:
  assumes "kruskal_loop ((i, j) # rest) p es = Some (Inr es')"
  obtains ri rj where "rooted p i ri" "rooted p j rj"
proof -
  from assms obtain ri where ri: "uf_find p i = Some (Inr ri)"
    by (cases "uf_find p i") (auto simp: bind_res_def split: sum.splits)
  with assms obtain rj where rj: "uf_find p j = Some (Inr rj)"
    by (cases "uf_find p j") (auto simp: bind_res_def split: sum.splits)
  from ri rj that show ?thesis by (blast intro: find_rooted)
qed

declare kruskal_loop.simps(2) [simp del]

lemma root_after_update:
  assumes "rooted p i ri" "rooted p j rj" "ri \<noteq> rj" "rooted p a ra"
  shows "rooted (p[ri := j]) a (if ra = ri then rj else ra)"
proof (cases "ra = ri")
  case True
  with assms show ?thesis by (auto intro: rooted_update_same)
next
  case False
  moreover have "p ! ri = ri" using assms(1) rooted_root by blast
  ultimately show ?thesis using assms(4) by (auto intro: rooted_update_other)
qed

lemma kruskal_inv_accept:
  assumes inv: "kruskal_inv p es" and ri: "rooted p i ri" and rj: "rooted p j rj" and ne: "ri \<noteq> rj"
  shows "kruskal_inv (p[ri := j]) (es @ [(i, j)])"
proof -
  let ?p = "p[ri := j]"
  let ?E = "set es"
  from inv have ufi: "uf_inv p" and bnd: "\<forall>(a, b) \<in> set es. a < length p \<and> b < length p"
    and comp: "\<And>a b. a < length p \<Longrightarrow> b < length p \<Longrightarrow>
                 (\<exists>r. rooted p a r \<and> rooted p b r) \<longleftrightarrow> (a, b) \<in> conn ?E"
    and cf: "cycle_free es" and ord: "\<forall>k<length es. es ! k \<notin> conn (set (take k es))"
    by (auto simp: kruskal_inv_def)
  have il: "i < length p" and jl: "j < length p" using ri rj rooted_lt by blast+
  have same_root: "(\<exists>r. rooted p a r \<and> rooted p b r) \<longleftrightarrow> ra = rb"
    if "rooted p a ra" "rooted p b rb" for a b ra rb
    using that rooted_unique by blast
  have new: "(i, j) \<notin> conn ?E"
    using comp[OF il jl] same_root[OF ri rj] ne by simp
  have 1: "uf_inv ?p" using ufi ri rj ne by (rule uf_inv_update)
  have 2: "\<forall>(a, b) \<in> set (es @ [(i, j)]). a < length ?p \<and> b < length ?p"
    using bnd il jl by auto
  have 3: "(\<exists>r. rooted ?p a r \<and> rooted ?p b r) \<longleftrightarrow> (a, b) \<in> conn (set (es @ [(i, j)]))"
    if a: "a < length ?p" and b: "b < length ?p" for a b
  proof -
    from a b ufi obtain ra rb where ra: "rooted p a ra" and rb: "rooted p b rb"
      using uf_inv_rooted[of p a] uf_inv_rooted[of p b] by auto
    have ca: "(x, y) \<in> conn ?E \<longleftrightarrow> rx = ry" if "rooted p x rx" "rooted p y ry" for x y rx ry
      using comp[of x y] same_root[OF that] that rooted_lt by blast
    have ra': "rooted ?p a (if ra = ri then rj else ra)" using ri rj ne ra by (rule root_after_update)
    have rb': "rooted ?p b (if rb = ri then rj else rb)" using ri rj ne rb by (rule root_after_update)
    have "(\<exists>r. rooted ?p a r \<and> rooted ?p b r) \<longleftrightarrow>
            (if ra = ri then rj else ra) = (if rb = ri then rj else rb)"
      using ra' rb' by (rule rooted_same_iff)
    also have "\<dots> \<longleftrightarrow> ra = rb \<or> (ra = ri \<and> rj = rb) \<or> (ra = rj \<and> ri = rb)"
      using ne by auto
    also have "\<dots> \<longleftrightarrow> (a, b) \<in> conn ?E \<or> ((a, i) \<in> conn ?E \<and> (j, b) \<in> conn ?E)
                       \<or> ((a, j) \<in> conn ?E \<and> (i, b) \<in> conn ?E)"
      using ca[OF ra rb] ca[OF ra ri] ca[OF rj rb] ca[OF ra rj] ca[OF ri rb] by simp
    also have "\<dots> \<longleftrightarrow> (a, b) \<in> conn (insert (i, j) ?E)" by (simp add: conn_insert_iff)
    finally show ?thesis by simp
  qed
  have 4: "cycle_free (es @ [(i, j)])" using cf new by (rule cycle_free_snoc)
  have 5: "(es @ [(i, j)]) ! k \<notin> conn (set (take k (es @ [(i, j)])))" if "k < length (es @ [(i, j)])" for k
  proof (cases "k < length es")
    case True
    with ord show ?thesis by (simp add: nth_append)
  next
    case False
    with that have "k = length es" by simp
    with new show ?thesis by simp
  qed
  from 1 2 3 4 5 show ?thesis unfolding kruskal_inv_def by blast
qed

lemma kruskal_inv_init: "kruskal_inv (UnionFind n) []"
proof -
  have "(\<exists>r. rooted (UnionFind n) a r \<and> rooted (UnionFind n) b r) \<longleftrightarrow> (a, b) \<in> conn {}"
    if "a < n" "b < n" for a b
  proof -
    have "(\<exists>r. rooted (UnionFind n) a r \<and> rooted (UnionFind n) b r) \<longleftrightarrow> a = b"
      using rooted_init[OF that(1)] rooted_init[OF that(2)] rooted_unique by blast
    then show ?thesis by (simp add: conn_def)
  qed
  moreover have "length (UnionFind n) = n" by (simp add: UnionFind_def)
  ultimately show ?thesis
    by (simp add: kruskal_inv_def uf_inv_init cycle_free_def)
qed

lemma kruskal_loop_inv:
  assumes "kruskal_inv p es" "kruskal_loop cands p es = Some (Inr es')"
  shows "\<exists>p'. kruskal_inv p' es'"
  using assms
proof (induction cands arbitrary: p es)
  case Nil
  then show ?case by auto
next
  case (Cons c cands)
  obtain i j where c: "c = (i, j)" by (cases c)
  from Cons.prems(2) c obtain ri rj where r: "rooted p i ri" "rooted p j rj"
    by (auto elim: kruskal_loop_find_fails)
  show ?case
  proof (cases "ri = rj")
    case True
    with Cons.prems(2) c r have "kruskal_loop cands p es = Some (Inr es')"
      by (simp add: kruskal_loop_step[OF r])
    with Cons.IH Cons.prems(1) show ?thesis by blast
  next
    case False
    with Cons.prems(2) c r have "kruskal_loop cands (p[ri := j]) (es @ [(i, j)]) = Some (Inr es')"
      by (simp add: kruskal_loop_step[OF r])
    moreover have "kruskal_inv (p[ri := j]) (es @ [(i, j)])"
      using Cons.prems(1) r False by (rule kruskal_inv_accept)
    ultimately show ?thesis using Cons.IH by blast
  qed
qed

lemma kruskal_loop_total:
  assumes "uf_inv p"
  shows "\<exists>r. kruskal_loop cands p es = Some r"
  using assms
proof (induction cands arbitrary: p es)
  case Nil
  then show ?case by simp
next
  case (Cons c cands)
  obtain i j where c: "c = (i, j)" by (cases c)
  show ?case
  proof (cases "i < length p \<and> j < length p")
    case True
    with Cons.prems obtain ri rj where r: "rooted p i ri" "rooted p j rj"
      using uf_inv_rooted[of p i] uf_inv_rooted[of p j] by auto
    show ?thesis
    proof (cases "ri = rj")
      case True
      with Cons.IH[OF Cons.prems] c r show ?thesis by (simp add: kruskal_loop_step[OF r])
    next
      case False
      have "uf_inv (p[ri := j])" using Cons.prems r False by (rule uf_inv_update)
      from Cons.IH[OF this] c r False show ?thesis by (simp add: kruskal_loop_step[OF r])
    qed
  next
    case False
    show ?thesis
    proof (cases "i < length p")
      case True
      with False have j: "length p \<le> j" by simp
      from True Cons.prems obtain ri where "rooted p i ri" by (auto simp: uf_inv_def)
      then have "uf_find p i = Some (Inr ri)" by (rule rooted_find)
      with j c show ?thesis by (simp add: find_out_of_range kruskal_loop.simps(2))
    next
      case False
      with c show ?thesis by (simp add: find_out_of_range kruskal_loop.simps(2))
    qed
  qed
qed

lemma kruskal_loop_subset:
  assumes "kruskal_loop cands p es = Some (Inr es')"
  shows "set es' \<subseteq> set es \<union> set cands"
  using assms
proof (induction cands arbitrary: p es)
  case Nil
  then show ?case by auto
next
  case (Cons c cands)
  obtain i j where c: "c = (i, j)" by (cases c)
  from Cons.prems c obtain ri rj where r: "rooted p i ri" "rooted p j rj"
    by (auto elim: kruskal_loop_find_fails)
  show ?case
  proof (cases "ri = rj")
    case True
    with Cons.prems c r have "kruskal_loop cands p es = Some (Inr es')"
      by (simp add: kruskal_loop_step[OF r])
    from Cons.IH[OF this] show ?thesis by auto
  next
    case False
    with Cons.prems c r have "kruskal_loop cands (p[ri := j]) (es @ [(i, j)]) = Some (Inr es')"
      by (simp add: kruskal_loop_step[OF r])
    from Cons.IH[OF this] c show ?thesis by auto
  qed
qed

lemma kruskal_loop_in_range:
  assumes "uf_inv p" "\<forall>(i, j) \<in> set cands. i < length p \<and> j < length p"
  shows "\<exists>es'. kruskal_loop cands p es = Some (Inr es')"
  using assms
proof (induction cands arbitrary: p es)
  case Nil
  then show ?case by simp
next
  case (Cons c cands)
  obtain i j where c: "c = (i, j)" by (cases c)
  with Cons.prems obtain ri rj where r: "rooted p i ri" "rooted p j rj"
    using uf_inv_rooted[of p i] uf_inv_rooted[of p j] by auto
  show ?case
  proof (cases "ri = rj")
    case True
    with Cons.IH[OF Cons.prems(1)] Cons.prems(2) c r show ?thesis
      by (simp add: kruskal_loop_step[OF r])
  next
    case False
    have "uf_inv (p[ri := j])" using Cons.prems(1) r False by (rule uf_inv_update)
    from Cons.IH[OF this] Cons.prems(2) c r False show ?thesis
      by (simp add: kruskal_loop_step[OF r])
  qed
qed


subsection \<open>Candidate pairs\<close>

definition cand_ok :: "string list \<Rightarrow> pyfloat list list \<Rightarrow> string list \<Rightarrow> nat \<times> nat \<Rightarrow> bool" where
  "cand_ok excluded matrix words c =
     (fst c < length matrix \<and> snd c < length (matrix ! fst c) \<and>
      fst c < length words \<and> snd c < length words \<and>
      words ! fst c \<notin> set excluded \<and> words ! snd c \<notin> set excluded)"

lemma pairs_row_keys:
  assumes "pairs_row ex ws i rest acc = Inr ptw" "k \<in> fst ` set ptw"
  shows "k \<in> fst ` set acc \<or>
         (fst k = i \<and> snd k \<in> fst ` set rest \<and> i < length ws \<and> snd k < length ws \<and>
          ws ! i \<notin> set ex \<and> ws ! snd k \<notin> set ex)"
  using assms
proof (induction rest arbitrary: acc)
  case Nil
  then show ?case by simp
next
  case (Cons jd rest)
  obtain j d where jd: "jd = (j, d)" by (cases jd)
  show ?case
  proof (cases "i < length ws \<and> j < length ws \<and> ws ! i \<notin> set ex \<and> ws ! j \<notin> set ex")
    case True
    with Cons.prems jd have "pairs_row ex ws i rest (AList.update (i, j) d acc) = Inr ptw" by simp
    from Cons.IH[OF this Cons.prems(2)] True jd show ?thesis
      by (auto simp: dom_update)
  next
    case False
    with Cons.prems jd have "pairs_row ex ws i rest acc = Inr ptw"
      by (auto split: if_splits)
    from Cons.IH[OF this Cons.prems(2)] jd show ?thesis by auto
  qed
qed

lemma pairs_rows_keys:
  assumes "pairs_rows ex ws rows acc = Inr ptw" "k \<in> fst ` set ptw"
  shows "k \<in> fst ` set acc \<or>
         (\<exists>line. (fst k, line) \<in> set rows \<and> snd k < length line \<and>
            fst k < length ws \<and> snd k < length ws \<and>
            ws ! fst k \<notin> set ex \<and> ws ! snd k \<notin> set ex)"
  using assms
proof (induction rows arbitrary: acc)
  case Nil
  then show ?case by simp
next
  case (Cons il rows)
  obtain i line where il: "il = (i, line)" by (cases il)
  with Cons.prems obtain acc' where row: "pairs_row ex ws i (enumerate 0 line) acc = Inr acc'"
    and rest: "pairs_rows ex ws rows acc' = Inr ptw"
    by (auto split: sum.splits)
  from Cons.IH[OF rest Cons.prems(2)] show ?case
  proof
    assume "k \<in> fst ` set acc'"
    from pairs_row_keys[OF row this] il show ?thesis
      by (auto simp: in_set_enumerate_eq)
  next
    assume "\<exists>line. (fst k, line) \<in> set rows \<and> snd k < length line \<and>
            fst k < length ws \<and> snd k < length ws \<and>
            ws ! fst k \<notin> set ex \<and> ws ! snd k \<notin> set ex"
    then show ?thesis by auto
  qed
qed

lemma py_sorted_set [simp]: "set (py_sorted key reverse xs) = set xs"
  by (simp add: py_sorted_def)

lemma sorted_candidates_ok:
  assumes "sorted_candidates ex matrix ws mx = Inr cs" "c \<in> set cs"
  shows "cand_ok ex matrix ws (fst c)"
proof -
  from assms(1) obtain ptw where ptw: "pairs_rows ex ws (enumerate 0 matrix) [] = Inr ptw"
    and cs: "cs = py_sorted (\<lambda>x. nan_key (snd x)) mx ptw"
    by (auto simp: sorted_candidates_def split: sum.splits)
  from assms(2) cs have "fst c \<in> fst ` set ptw" by simp
  from pairs_rows_keys[OF ptw this] show ?thesis
    by (auto simp: cand_ok_def in_set_enumerate_eq)
qed

lemma pairs_row_total:
  assumes "i < length ws" "\<forall>j \<in> fst ` set rest. j < length ws"
  shows "\<exists>ptw. pairs_row ex ws i rest acc = Inr ptw"
  using assms by (induction rest arbitrary: acc) auto

lemma pairs_rows_total:
  assumes "\<forall>(i, line) \<in> set rows. i < length ws \<and> length line \<le> length ws"
  shows "\<exists>ptw. pairs_rows ex ws rows acc = Inr ptw"
  using assms
proof (induction rows arbitrary: acc)
  case Nil
  then show ?case by simp
next
  case (Cons il rows)
  obtain i line where il: "il = (i, line)" by (cases il)
  with Cons.prems have "i < length ws" "\<forall>j \<in> fst ` set (enumerate 0 line). j < length ws"
    by (auto simp: in_set_enumerate_eq)
  then obtain acc' where "pairs_row ex ws i (enumerate 0 line) acc = Inr acc'"
    using pairs_row_total by blast
  with Cons.IH[of acc'] Cons.prems il show ?case by auto
qed

lemma sorted_candidates_total:
  assumes "length matrix \<le> length ws" "\<forall>line \<in> set matrix. length line \<le> length ws"
  shows "\<exists>cs. sorted_candidates ex matrix ws mx = Inr cs"
proof -
  have "\<forall>(i, line) \<in> set (enumerate 0 matrix). i < length ws \<and> length line \<le> length ws"
    using assms by (auto simp: in_set_enumerate_eq)
  from pairs_rows_total[OF this, of ex "[]"] show ?thesis
    by (auto simp: sorted_candidates_def)
qed

lemma MST_edges_with_result:
  "\<exists>r. MST_edges_with ex matrix ws mx = Some r \<and>
       (\<forall>es. r = Inr es \<longrightarrow> (\<exists>p. kruskal_inv p es) \<and>
          (\<forall>e \<in> set es. cand_ok ex matrix ws e))"
proof (cases "sorted_candidates ex matrix ws mx")
  case (Inl e)
  then show ?thesis by (simp add: MST_edges_with_def)
next
  case (Inr cs)
  let ?p = "UnionFind (length matrix)"
  from kruskal_loop_total[OF uf_inv_init[of "length matrix"], of "map fst cs" "[]"]
  obtain r where r: "kruskal_loop (map fst cs) ?p [] = Some r" by blast
  have "(\<exists>p. kruskal_inv p es) \<and> (\<forall>e \<in> set es. cand_ok ex matrix ws e)" if "r = Inr es" for es
  proof -
    from r that have l: "kruskal_loop (map fst cs) ?p [] = Some (Inr es)" by simp
    from kruskal_loop_inv[OF kruskal_inv_init l] have "\<exists>p. kruskal_inv p es" .
    moreover from kruskal_loop_subset[OF l] sorted_candidates_ok[OF Inr]
    have "\<forall>e \<in> set es. cand_ok ex matrix ws e" by auto
    ultimately show ?thesis by simp
  qed
  with r Inr show ?thesis by (simp add: MST_edges_with_def)
qed

lemma MST_edges_with_square:
  assumes "length matrix \<le> length ws" "\<forall>line \<in> set matrix. length line \<le> length matrix"
  shows "\<exists>es. MST_edges_with ex matrix ws mx = Some (Inr es)"
proof -
  from assms have "\<forall>line \<in> set matrix. length line \<le> length ws" by auto
  from sorted_candidates_total[OF assms(1) this]
  obtain cs where cs: "sorted_candidates ex matrix ws mx = Inr cs" by blast
  have "\<forall>(i, j) \<in> set (map fst cs). i < length (UnionFind (length matrix)) \<and> j < length (UnionFind (length matrix))"
  proof -
    have "i < length matrix \<and> j < length matrix" if "((i, j), w) \<in> set cs" for i j w
    proof -
      from sorted_candidates_ok[OF cs that] have "i < length matrix" "j < length (matrix ! i)"
        by (simp_all add: cand_ok_def)
      moreover from this assms(2) have "length (matrix ! i) \<le> length matrix" by simp
      ultimately show ?thesis by simp
    qed
    then show ?thesis by (auto simp: UnionFind_def)
  qed
  from kruskal_loop_in_range[OF uf_inv_init this] cs show ?thesis
    by (simp add: MST_edges_with_def)
qed


text \<open>
  C2. One pass of the greedy loop over a candidate \<open>(i, j)\<close> whose two \<open>find\<close> calls return the
  roots \<open>ri\<close> and \<open>rj\<close> accepts the pair exactly when the roots differ, and then links \<open>ri\<close> to
  \<open>j\<close>, after which both endpoints have the root \<open>rj\<close>. The extractor always returns; when it
  returns edges, no edge has its endpoints connected by the other returned edges (so the list
  holds no cycle), no edge is a self-loop, and every edge joined two vertices that the edges
  accepted before it had left unconnected. On a square matrix with a word for every row the
  result is an edge list.
\<close>

theorem MST_edges_never_closes_a_cycle:
  "(uf_find parents i = Some (Inr ri) \<and> uf_find parents j = Some (Inr rj) \<longrightarrow>
      kruskal_loop ((i, j) # rest) parents edges =
        (if ri \<noteq> rj then kruskal_loop rest (parents[ri := j]) (edges @ [(i, j)])
         else kruskal_loop rest parents edges) \<and>
      (ri \<noteq> rj \<longrightarrow> uf_find (parents[ri := j]) i = Some (Inr rj) \<and>
                   uf_find (parents[ri := j]) j = Some (Inr rj))) \<and>
   (\<exists>r. MST_edges_with excluded matrix words mx = Some r \<and>
      (\<forall>es. r = Inr es \<longrightarrow> cycle_free es \<and> (\<forall>(a, b) \<in> set es. a \<noteq> b) \<and>
         (\<forall>k<length es. es ! k \<notin> conn (set (take k es))))) \<and>
   (length matrix \<le> length words \<and> (\<forall>line \<in> set matrix. length line \<le> length matrix) \<longrightarrow>
      (\<exists>es. MST_edges_with excluded matrix words mx = Some (Inr es)))"
proof (intro conjI impI)
  assume f: "uf_find parents i = Some (Inr ri) \<and> uf_find parents j = Some (Inr rj)"
  then have r: "rooted parents i ri" "rooted parents j rj" by (simp_all add: find_rooted)
  from kruskal_loop_step[OF r]
  show "kruskal_loop ((i, j) # rest) parents edges =
        (if ri \<noteq> rj then kruskal_loop rest (parents[ri := j]) (edges @ [(i, j)])
         else kruskal_loop rest parents edges)" .
  assume ne: "ri \<noteq> rj"
  have "rooted (parents[ri := j]) i rj" using r ne by (simp add: rooted_update_same)
  then show "uf_find (parents[ri := j]) i = Some (Inr rj)" by (rule rooted_find)
  have "rooted parents ri ri" using r(1) rooted_root by (blast intro: rooted.root)
  have "rooted (parents[ri := j]) j rj"
    using r ne rooted_root[OF r(1)] by (simp add: rooted_update_other)
  then show "uf_find (parents[ri := j]) j = Some (Inr rj)" by (rule rooted_find)
next
  from MST_edges_with_result[of excluded matrix words mx]
  obtain r where r: "MST_edges_with excluded matrix words mx = Some r"
    and inv: "\<And>es. r = Inr es \<Longrightarrow> \<exists>p. kruskal_inv p es" by blast
  have "cycle_free es \<and> (\<forall>(a, b) \<in> set es. a \<noteq> b) \<and>
          (\<forall>k<length es. es ! k \<notin> conn (set (take k es)))" if "r = Inr es" for es
  proof -
    from inv[OF that] obtain p where "kruskal_inv p es" ..
    then have cf: "cycle_free es" and ord: "\<forall>k<length es. es ! k \<notin> conn (set (take k es))"
      by (simp_all add: kruskal_inv_def)
    from cf have "\<forall>(a, b) \<in> set es. a \<noteq> b" using cycle_free_no_self_loop by blast
    with cf ord show ?thesis by simp
  qed
  with r show "\<exists>r. MST_edges_with excluded matrix words mx = Some r \<and>
      (\<forall>es. r = Inr es \<longrightarrow> cycle_free es \<and> (\<forall>(a, b) \<in> set es. a \<noteq> b) \<and>
         (\<forall>k<length es. es ! k \<notin> conn (set (take k es))))" by blast
next
  assume "length matrix \<le> length words \<and> (\<forall>line \<in> set matrix. length line \<le> length matrix)"
  then show "\<exists>es. MST_edges_with excluded matrix words mx = Some (Inr es)"
    using MST_edges_with_square by blast
qed

theorem MST_edges_never_closes_a_cycle_witness:
  "uf_find [0, 1, 2] 0 = Some (Inr 0) \<and> uf_find [0, 1, 2] 2 = Some (Inr 2) \<and>
   kruskal_loop [(0, 2), (2, 0)] [0, 1, 2] [] = kruskal_loop [(2, 0)] [2, 1, 2] [(0, 2)] \<and>
   uf_find [2, 1, 2] 0 = Some (Inr 2) \<and>
   MST_edges_with excluded_span
     [[NaN, Num (Fin 1), Num (Fin 5)], [Num (Fin 2), NaN, Num (Fin 3)], [Num (Fin 5), Num (Fin 3), NaN]]
     [''a'', ''c'', ''b''] True = Some (Inr [(0, 2), (1, 2)]) \<and>
   cycle_free [(0, 2), (1, 2)]"
proof -
  let ?M = "[[NaN, Num (Fin 1), Num (Fin 5)], [Num (Fin 2), NaN, Num (Fin 3)], [Num (Fin 5), Num (Fin 3), NaN]]"
  let ?ws = "[''a'', ''c'', ''b'']"
  have f: "uf_find [0, 1, 2] 0 = Some (Inr 0)" "uf_find [0, 1, 2] 2 = Some (Inr 2)"
    by (simp_all add: uf_find.simps)
  have m: "MST_edges_with excluded_span ?M ?ws True = Some (Inr [(0, 2), (1, 2)])"
    by code_simp
  note inst = MST_edges_never_closes_a_cycle[of "[0, 1, 2]" 0 0 2 2 "[(2, 0)]" "[]" excluded_span ?M ?ws True]
  from inst f have "kruskal_loop [(0, 2), (2, 0)] [0, 1, 2] [] = kruskal_loop [(2, 0)] [2, 1, 2] [(0, 2)]"
    and "uf_find [2, 1, 2] 0 = Some (Inr 2)" by simp_all
  moreover from inst m have "cycle_free [(0, 2), (1, 2)]" by simp
  ultimately show ?thesis using f m by simp
qed

text \<open>
  C5. In both variants of the extractor every returned edge \<open>(i, j)\<close> indexes the word list it
  was given: \<open>i\<close> and \<open>j\<close> are positions of \<open>words\<close> (and of the matrix), and neither
  \<open>words ! i\<close> nor \<open>words ! j\<close> is in the variant's excluded list. Excluded words are skipped, not
  removed, so the positions of the other words do not shift.
\<close>

theorem MST_edges_no_excluded_endpoint:
  "(prims_MST_edges matrix words mx = Some (Inr es) \<and> (i, j) \<in> set es \<longrightarrow>
      i < length words \<and> j < length words \<and> i < length matrix \<and> j < length (matrix ! i) \<and>
      words ! i \<notin> set excluded_wbaseline \<and> words ! j \<notin> set excluded_wbaseline) \<and>
   (MST_edges matrix words mx = Some (Inr es) \<and> (i, j) \<in> set es \<longrightarrow>
      i < length words \<and> j < length words \<and> i < length matrix \<and> j < length (matrix ! i) \<and>
      words ! i \<notin> set excluded_span \<and> words ! j \<notin> set excluded_span)"
proof -
  have "cand_ok ex matrix words (i, j)"
    if "MST_edges_with ex matrix words mx = Some (Inr es)" "(i, j) \<in> set es" for ex
    using MST_edges_with_result[of ex matrix words mx] that by auto
  then show ?thesis
    unfolding prims_MST_edges_def MST_edges_def cand_ok_def by auto
qed

theorem MST_edges_no_excluded_endpoint_witness:
  "MST_edges
     [[NaN, Num (Fin 1), Num (Fin 5)], [Num (Fin 2), NaN, Num (Fin 3)], [Num (Fin 5), Num (Fin 3), NaN]]
     [''a'', '','', ''b''] True = Some (Inr [(0, 2)]) \<and>
   [''a'', '','', ''b''] ! 0 \<notin> set excluded_span \<and> [''a'', '','', ''b''] ! 2 \<notin> set excluded_span \<and>
   prims_MST_edges
     [[NaN, Num (Fin 1), Num (Fin 5)], [Num (Fin 2), NaN, Num (Fin 3)], [Num (Fin 5), Num (Fin 3), NaN]]
     [''a'', '';'', ''b''] True = Some (Inr [(0, 2)]) \<and>
   [''a'', '';'', ''b''] ! 0 \<notin> set excluded_wbaseline \<and> [''a'', '';'', ''b''] ! 2 \<notin> set excluded_wbaseline"
proof -
  let ?M = "[[NaN, Num (Fin 1), Num (Fin 5)], [Num (Fin 2), NaN, Num (Fin 3)], [Num (Fin 5), Num (Fin 3), NaN]]"
  have m: "MST_edges ?M [''a'', '','', ''b''] True = Some (Inr [(0, 2)])"
    by code_simp
  have p: "prims_MST_edges ?M [''a'', '';'', ''b''] True = Some (Inr [(0, 2)])"
    by code_simp
  from MST_edges_no_excluded_endpoint[of ?M "[''a'', '','', ''b'']" True "[(0, 2)]" 0 2] m
  have "[''a'', '','', ''b''] ! 0 \<notin> set excluded_span \<and> [''a'', '','', ''b''] ! 2 \<notin> set excluded_span"
    by simp
  moreover
  from MST_edges_no_excluded_endpoint[of ?M "[''a'', '';'', ''b'']" True "[(0, 2)]" 0 2] p
  have "[''a'', '';'', ''b''] ! 0 \<notin> set excluded_wbaseline \<and> [''a'', '';'', ''b''] ! 2 \<notin> set excluded_wbaseline"
    by simp
  ultimately show ?thesis using m p by simp
qed

subsection \<open>Where the sort puts NaN\<close>

lemma nan_key_NaN [simp]: "nan_key NaN = NInf"
  by (simp add: nan_key_def py_ne_def)

lemma nan_key_Num [simp]: "nan_key (Num x) = x"
  by (simp add: nan_key_def py_ne_def)

lemma NInf_least: "x \<le> NInf \<Longrightarrow> x = NInf"
  by (cases x) simp_all

lemma py_sorted_ascending:
  "a \<le> b \<Longrightarrow> b < length xs \<Longrightarrow> key (py_sorted key False xs ! a) \<le> key (py_sorted key False xs ! b)"
proof -
  assume ab: "a \<le> b" "b < length xs"
  have "sorted (map key (sort_key key xs))" by simp
  with ab have "map key (sort_key key xs) ! a \<le> map key (sort_key key xs) ! b"
    by (intro sorted_nth_mono) simp_all
  with ab show ?thesis by (simp add: py_sorted_def)
qed

lemma py_sorted_descending:
  "a \<le> b \<Longrightarrow> b < length xs \<Longrightarrow> key (py_sorted key True xs ! b) \<le> key (py_sorted key True xs ! a)"
proof -
  assume ab: "a \<le> b" "b < length xs"
  let ?ys = "map key (rev (sort_key key (rev xs)))"
  have "sorted (rev ?ys)" by (simp add: rev_map)
  with ab have "?ys ! b \<le> ?ys ! a"
    by (auto simp: sorted_rev_iff_nth_mono)
  with ab show ?thesis by (simp add: py_sorted_def)
qed

text \<open>
  C3 (as amended). The sort key of a NaN weight is \<open>-inf\<close>. With
  \<open>maximum_spanning_tree = True\<close> (descending) a candidate with a NaN weight comes after every
  candidate whose weight is a number other than \<open>-inf\<close>; with
  \<open>maximum_spanning_tree = False\<close> (ascending) it comes before every such candidate.
\<close>

theorem sorted_candidates_nan_position:
  assumes "sorted_candidates excluded matrix words mx = Inr cs"
    and "a < length cs" "b < length cs"
    and "snd (cs ! a) = NaN" "snd (cs ! b) = Num x" "x \<noteq> NInf"
  shows "if mx then b < a else a < b"
proof -
  from assms(1) obtain ptw where cs: "cs = py_sorted (\<lambda>x. nan_key (snd x)) mx ptw"
    by (auto simp: sorted_candidates_def split: sum.splits)
  then have len: "length cs = length ptw" by (simp add: py_sorted_def split: if_splits)
  have ka: "nan_key (snd (cs ! a)) = NInf" and kb: "nan_key (snd (cs ! b)) = x"
    using assms by simp_all
  show ?thesis
  proof (cases mx)
    case True
    have "b < a"
    proof (rule ccontr)
      assume "\<not> b < a"
      then have "a \<le> b" by simp
      from py_sorted_descending[OF this, of ptw "\<lambda>x. nan_key (snd x)"] assms(3) len cs True
      have "nan_key (snd (cs ! b)) \<le> nan_key (snd (cs ! a))" by simp
      with ka kb assms(6) show False by (simp add: NInf_least)
    qed
    with True show ?thesis by simp
  next
    case False
    have "a < b"
    proof (rule ccontr)
      assume "\<not> a < b"
      then have "b \<le> a" by simp
      from py_sorted_ascending[OF this, of ptw "\<lambda>x. nan_key (snd x)"] assms(2) len cs False
      have "nan_key (snd (cs ! b)) \<le> nan_key (snd (cs ! a))" by simp
      with ka kb assms(6) show False by (simp add: NInf_least)
    qed
    with False show ?thesis by simp
  qed
qed

theorem sorted_candidates_nan_position_witness:
  "sorted_candidates excluded_span [[NaN, Num (Fin 1)], [Num (Fin 2), NaN]] [''a'', ''b''] True =
     Inr [((1, 0), Num (Fin 2)), ((0, 1), Num (Fin 1)), ((0, 0), NaN), ((1, 1), NaN)] \<and>
   (if True then (0::nat) < 2 else 2 < (0::nat))"
proof -
  let ?cs = "[((1::nat, 0::nat), Num (Fin 2)), ((0, 1), Num (Fin 1)), ((0, 0), NaN), ((1, 1), NaN)]"
  have e: "sorted_candidates excluded_span [[NaN, Num (Fin 1)], [Num (Fin 2), NaN]] [''a'', ''b''] True = Inr ?cs"
    by code_simp
  from sorted_candidates_nan_position[OF e, of 2 0 "Fin 2"]
  have "if True then (0::nat) < 2 else 2 < (0::nat)" by simp
  with e show ?thesis by simp
qed

text \<open>
  The claim C3 as it was stated fails for the ascending sort: the two NaN diagonal entries come
  first, before the pairs with the weights 1 and 2.
\<close>

theorem sorted_candidates_ascending_nan_first:
  "sorted_candidates excluded_span [[NaN, Num (Fin 1)], [Num (Fin 2), NaN]] [''a'', ''b''] False =
     Inr [((0, 0), NaN), ((1, 1), NaN), ((0, 1), Num (Fin 1)), ((1, 0), Num (Fin 2))]"
  by code_simp


section \<open>Attachment score\<close>

text \<open>
  The scoring statements of \<open>score_observation\<close>, for one predicted edge list. A Python set of
  pairs is a list without repetitions: \<open>edges_set\<close> is the comprehension
  \<open>{tuple(sorted(x)) for x in edges}\<close> and \<open>set_intersection\<close> the method \<open>intersection\<close>;
  only the number of elements of the result is used. \<open>flip_edges\<close> is not part of the program:
  it swaps the endpoints of the edges at the marked positions.
\<close>

definition sorted_pair :: "nat \<times> nat \<Rightarrow> nat \<times> nat" where
  "sorted_pair x = (min (fst x) (snd x), max (fst x) (snd x))"

definition edges_set :: "(nat \<times> nat) list \<Rightarrow> (nat \<times> nat) list" where
  "edges_set edges = remdups (map sorted_pair edges)"

definition set_intersection :: "'a list \<Rightarrow> 'a list \<Rightarrow> 'a list" where
  "set_intersection a b = filter (\<lambda>x. x \<in> set b) a"

definition uuas :: "(nat \<times> nat) list \<Rightarrow> (nat \<times> nat) list \<Rightarrow> pyfloat" where
  "uuas pmi_edges gold_edges =
     (let gold_edges_set = edges_set gold_edges;
          pmi_edges_set = edges_set pmi_edges;
          correct = set_intersection gold_edges_set pmi_edges_set;
          num_correct = length correct;
          num_total = length gold_edges
      in if num_total \<noteq> 0 then Num (Fin (real num_correct / real num_total)) else NaN)"

definition flip_edges :: "bool list \<Rightarrow> (nat \<times> nat) list \<Rightarrow> (nat \<times> nat) list" where
  "flip_edges fs es = map (\<lambda>(f, e). if f then prod.swap e else e) (zip fs es)"

lemma sorted_pair_swap [simp]: "sorted_pair (prod.swap e) = sorted_pair e"
  by (auto simp: sorted_pair_def min_def max_def)

lemma set_intersection_card:
  "length (set_intersection (remdups xs) (remdups ys)) = card (set xs \<inter> set ys)"
proof -
  have "distinct (set_intersection (remdups xs) (remdups ys))"
    by (simp add: set_intersection_def)
  then have "length (set_intersection (remdups xs) (remdups ys)) =
               card (set (set_intersection (remdups xs) (remdups ys)))"
    by (simp add: distinct_card)
  also have "set (set_intersection (remdups xs) (remdups ys)) = set xs \<inter> set ys"
    by (auto simp: set_intersection_def)
  finally show ?thesis .
qed

lemma uuas_eq:
  "uuas pred gold =
     (if gold = [] then NaN
      else Num (Fin (real (card (sorted_pair ` set pred \<inter> sorted_pair ` set gold)) / real (length gold))))"
proof -
  have "length (set_intersection (edges_set gold) (edges_set pred)) =
          card (sorted_pair ` set pred \<inter> sorted_pair ` set gold)"
    by (simp add: edges_set_def set_intersection_card Int_commute)
  then show ?thesis by (simp add: uuas_def Let_def)
qed

lemma one_word_no_edges: "MST_edges_with excluded [[d]] [w] mx = Some (Inr [])"
proof -
  have c: "sorted_candidates excluded [[d]] [w] mx =
             Inr (if w \<in> set excluded then [] else [((0, 0), d)])"
    by (simp add: sorted_candidates_def py_sorted_def)
  have f: "uf_find [0] 0 = Some (Inr 0)" by (simp add: uf_find.simps)
  show ?thesis
    by (simp add: MST_edges_with_def c UnionFind_def kruskal_loop.simps(2) f)
qed

text \<open>
  C6. The score is the number of gold edges that the prediction also holds, both read as
  unordered pairs, divided by the length of the gold edge list; it is NaN when the gold edge
  list is empty. A one-word sentence has a \<open>1 \<times> 1\<close> gold matrix, from which the extractor
  returns no edge, so its score is NaN. (The quotient is the exact one: the rounding of Python's
  float division is not modelled.)
\<close>

theorem uuas_ratio_or_nan:
  "uuas pred gold =
     (if gold = [] then NaN
      else Num (Fin (real (card (sorted_pair ` set pred \<inter> sorted_pair ` set gold)) / real (length gold)))) \<and>
   MST_edges_with excluded [[d]] [w] mx = Some (Inr []) \<and>
   uuas pred [] = NaN"
  using uuas_eq[of pred gold] uuas_eq[of pred "[]"] one_word_no_edges[of excluded d w mx] by simp

theorem uuas_ratio_or_nan_witness:
  "uuas [(1, 0), (2, 1), (0, 3)] [(0, 1), (1, 2), (2, 3)] = Num (Fin (2 / 3)) \<and>
   uuas [(1, 0)] [] = NaN"
proof -
  have "card (sorted_pair ` set [(1, 0), (2, 1), (0, 3)] \<inter> sorted_pair ` set [(0, 1), (1, 2), (2, 3)]) = 2"
    by (simp add: sorted_pair_def)
  with uuas_ratio_or_nan[of "[(1, 0), (2, 1), (0, 3)]" "[(0, 1), (1, 2), (2, 3)]"]
    uuas_ratio_or_nan[of "[(1, 0)]" "[]"]
  show ?thesis by simp
qed

text \<open>
  C9. The score does not change when either edge list is reordered or when the two endpoints of
  any of its edges are swapped; in particular \<open>score({(a,b)}, {(b,a)}) = score({(a,b)}, {(a,b)})\<close>.
\<close>

theorem uuas_symmetric:
  assumes "length fs = length pred" "length gs = length gold"
    and "mset pred' = mset (flip_edges fs pred)" "mset gold' = mset (flip_edges gs gold)"
  shows "uuas pred' gold' = uuas pred gold \<and> uuas [(a, b)] [(b, a)] = uuas [(a, b)] [(a, b)]"
proof -
  have flip: "map sorted_pair (flip_edges hs es) = map sorted_pair es" if "length hs = length es" for hs es
    using that
  proof (induction hs es rule: list_induct2)
    case Nil
    show ?case by (simp add: flip_edges_def)
  next
    case (Cons h hs e es)
    then show ?case by (simp add: flip_edges_def)
  qed
  have img: "sorted_pair ` set (flip_edges hs es) = sorted_pair ` set es" if "length hs = length es" for hs es
    using flip[OF that] by (metis set_map)
  have "set pred' = set (flip_edges fs pred)" using assms(3) by (rule mset_eq_setD)
  with img[OF assms(1)] have p: "sorted_pair ` set pred' = sorted_pair ` set pred" by simp
  have "set gold' = set (flip_edges gs gold)" using assms(4) by (rule mset_eq_setD)
  with img[OF assms(2)] have g: "sorted_pair ` set gold' = sorted_pair ` set gold" by simp
  have "length gold' = length (flip_edges gs gold)" using assms(4) by (rule mset_eq_length)
  with assms(2) have l: "length gold' = length gold" by (simp add: flip_edges_def)
  then have e: "gold' = [] \<longleftrightarrow> gold = []" by (metis length_0_conv)
  have 1: "uuas pred' gold' = uuas pred gold" by (simp add: uuas_eq p g l e)
  have "sorted_pair (b, a) = sorted_pair (a, b)" using sorted_pair_swap[of "(a, b)"] by simp
  then have 2: "uuas [(a, b)] [(b, a)] = uuas [(a, b)] [(a, b)]" by (simp add: uuas_eq)
  from 1 2 show ?thesis by simp
qed

theorem uuas_symmetric_witness:
  "uuas [(2, 1), (1, 0)] [(1, 0), (3, 2), (1, 2)] = uuas [(0, 1), (1, 2)] [(0, 1), (1, 2), (2, 3)] \<and>
   uuas [(4, 7)] [(7, 4)] = uuas [(4, 7)] [(4, 7)]"
proof -
  have 3: "mset [(2::nat, 1::nat), (1, 0)] = mset (flip_edges [True, True] [(0, 1), (1, 2)])"
    by (simp add: flip_edges_def)
  have 4: "mset [(1::nat, 0::nat), (3, 2), (1, 2)] = mset (flip_edges [True, False, True] [(0, 1), (1, 2), (2, 3)])"
    by (simp add: flip_edges_def)
  have 1: "length [True, True] = length [(0::nat, 1::nat), (1, 2)]" by simp
  have 2: "length [True, False, True] = length [(0::nat, 1::nat), (1, 2), (2, 3)]" by simp
  from uuas_symmetric[OF 1 2 3 4, of 4 7] show ?thesis .
qed

section \<open>Word index to sub-token indices\<close>

text \<open>
  \<open>py_get xs i\<close> is the list lookup \<open>xs[i]\<close> for any integer \<open>i\<close>, negative ones counting from
  the end, and \<open>py_slice_to xs i\<close> is the slice \<open>xs[:i]\<close>. The loop that adds up the lengths of
  the sub-token lists before the word is a fold.
\<close>

definition py_get :: "'a list \<Rightarrow> int \<Rightarrow> error + 'a" where
  "py_get xs i =
     (if i < 0
      then (if - int (length xs) \<le> i then Inr (xs ! nat (int (length xs) + i)) else Inl IndexError)
      else (if i < int (length xs) then Inr (xs ! nat i) else Inl IndexError))"

definition py_slice_to :: "'a list \<Rightarrow> int \<Rightarrow> 'a list" where
  "py_slice_to xs i = (if i < 0 then take (nat (int (length xs) + i)) xs else take (nat i) xs)"

definition word_index_to_subword_indices :: "int \<Rightarrow> 'a list list \<Rightarrow> error + nat list" where
  "word_index_to_subword_indices word_index nested_list =
     (if word_index > int (length nested_list) then Inl ValueError
      else
        let count = fold (\<lambda>subword_list count. count + length subword_list)
                      (py_slice_to nested_list word_index) 0
        in case py_get nested_list word_index of
             Inl e \<Rightarrow> Inl e
           | Inr subword_list \<Rightarrow> Inr [count ..< count + length subword_list])"

lemma fold_count: "fold (\<lambda>subword_list count. count + length subword_list) xs c = c + length (concat xs)"
  by (induction xs arbitrary: c) simp_all

lemma word_index_in_range:
  "i < length nested \<Longrightarrow>
   word_index_to_subword_indices (int i) nested =
     Inr [length (concat (take i nested)) ..< length (concat (take i nested)) + length (nested ! i)]"
  by (simp add: word_index_to_subword_indices_def py_get_def py_slice_to_def fold_count Let_def)

lemma word_index_too_large:
  "int (length nested) < w \<Longrightarrow> word_index_to_subword_indices w nested = Inl ValueError"
  by (simp add: word_index_to_subword_indices_def)

lemma word_index_valid_returns:
  "- int (length nested) \<le> w \<Longrightarrow> w < int (length nested) \<Longrightarrow>
   \<exists>r. word_index_to_subword_indices w nested = Inr r"
  by (simp add: word_index_to_subword_indices_def py_get_def Let_def)

lemma word_index_at_length:
  "word_index_to_subword_indices (int (length nested)) nested = Inl IndexError"
  by (simp add: word_index_to_subword_indices_def py_get_def Let_def)

text \<open>
  C8. An index equal to the length of the nested list is out of range, but the guard
  \<open>word_index > len(nested_list)\<close> lets it through and the lookup \<open>nested_list[word_index]\<close>
  fails with \<open>IndexError\<close>, not with the function's own \<open>ValueError\<close>.
\<close>

theorem word_index_at_length_index_error:
  "word_index_to_subword_indices 2 [[''a''], [''b'', ''c'']] = Inl IndexError \<and>
   word_index_to_subword_indices 3 [[''a''], [''b'', ''c'']] = Inl ValueError \<and>
   word_index_to_subword_indices 1 [[''a''], [''b'', ''c'']] = Inr [1, 2]"
  by (simp add: word_index_to_subword_indices_def py_get_def py_slice_to_def upt_rec Let_def)


section \<open>Query planner\<close>

text \<open>
  A tensor of three dimensions is a list of batch rows, each a list of rows of numbers.
  \<open>assign_one batches cols t\<close> is the assignment \<open>t[batches, :, cols] = 1.0\<close>. A slice
  \<open>index:w1_indices[-1]+1\<close> selects the columns in that range that exist, while a list of
  columns or a single column past the last dimension raises \<open>IndexError\<close>; \<open>mask_loop\<close> is the
  loop of \<open>make_mask_and_mapping_single_pair\<close> over the enumerated target span. The span-as-batch
  file has the same loop inside \<open>pmi_between_spans\<close>. In batch row \<open>b\<close>, \<open>hidden\<close> says which
  columns of the permutation mask the loop sets and \<open>targeted\<close> which column of the target mapping.
\<close>

type_synonym tensor = "real list list list"

definition zeros :: "nat \<Rightarrow> nat \<Rightarrow> nat \<Rightarrow> tensor" where
  "zeros a b c = replicate a (replicate b (replicate c 0))"

definition assign_one :: "nat list \<Rightarrow> (nat \<Rightarrow> bool) \<Rightarrow> tensor \<Rightarrow> tensor" where
  "assign_one batches cols t =
     map (\<lambda>b. if b \<in> set batches
               then map (\<lambda>row. map (\<lambda>c. if cols c then 1 else row ! c) [0..<length row]) (t ! b)
               else t ! b)
       [0..<length t]"

fun mask_loop :: "nat \<Rightarrow> nat list \<Rightarrow> nat list \<Rightarrow> nat \<Rightarrow> (nat \<times> nat) list \<Rightarrow> tensor \<times> tensor \<Rightarrow> error + tensor \<times> tensor" where
  "mask_loop len1 w1_indices w2_indices seqlen [] (perm_mask, target_mapping) =
     Inr (perm_mask, target_mapping)"
| "mask_loop len1 w1_indices w2_indices seqlen ((i, index) # rest) (perm_mask, target_mapping) =
     (let perm_mask1 = assign_one [i, len1 + i] (\<lambda>c. index \<le> c \<and> c < last w1_indices + 1) perm_mask
      in if \<exists>c \<in> set w2_indices. seqlen \<le> c then Inl IndexError
         else
           let perm_mask2 = assign_one [len1 + i] (\<lambda>c. c \<in> set w2_indices) perm_mask1
           in if seqlen \<le> index then Inl IndexError
              else mask_loop len1 w1_indices w2_indices seqlen rest
                     (perm_mask2, assign_one [i, len1 + i] (\<lambda>c. c = index) target_mapping))"

definition make_mask_and_mapping_single_pair :: "nat list \<Rightarrow> nat list \<Rightarrow> nat \<Rightarrow> error + tensor \<times> tensor" where
  "make_mask_and_mapping_single_pair w1_indices w2_indices seqlen =
     (let len1 = length w1_indices;
          batch_size = len1 * 2;
          perm_mask = zeros batch_size seqlen seqlen;
          target_mapping = zeros batch_size 1 seqlen
      in mask_loop len1 w1_indices w2_indices seqlen (enumerate 0 w1_indices)
           (perm_mask, target_mapping))"

definition shape :: "tensor \<Rightarrow> nat \<Rightarrow> nat \<Rightarrow> nat \<Rightarrow> bool" where
  "shape t B R C = (length t = B \<and> (\<forall>p \<in> set t. length p = R \<and> (\<forall>row \<in> set p. length row = C)))"

definition hidden :: "nat \<Rightarrow> nat list \<Rightarrow> nat list \<Rightarrow> (nat \<times> nat) list \<Rightarrow> nat \<Rightarrow> nat \<Rightarrow> bool" where
  "hidden len1 w1 w2 es b c =
     (\<exists>(i, index) \<in> set es.
        ((b = i \<or> b = len1 + i) \<and> index \<le> c \<and> c < last w1 + 1) \<or> (b = len1 + i \<and> c \<in> set w2))"

definition targeted :: "nat \<Rightarrow> (nat \<times> nat) list \<Rightarrow> nat \<Rightarrow> nat \<Rightarrow> bool" where
  "targeted len1 es b c = (\<exists>(i, index) \<in> set es. (b = i \<or> b = len1 + i) \<and> c = index)"

lemma shape_zeros: "shape (zeros a b c) a b c"
  by (simp add: shape_def zeros_def)

lemma nth_zeros: "i < a \<Longrightarrow> r < b \<Longrightarrow> k < c \<Longrightarrow> zeros a b c ! i ! r ! k = 0"
  by (simp add: zeros_def)

lemma shape_nth: "shape t B R C \<Longrightarrow> b < B \<Longrightarrow> length (t ! b) = R"
  by (simp add: shape_def)

lemma shape_nth_nth:
  assumes "shape t B R C" "b < B" "r < R"
  shows "length (t ! b ! r) = C"
proof -
  from assms have "t ! b \<in> set t" "length (t ! b) = R" by (simp_all add: shape_def)
  moreover from this assms(3) have "t ! b ! r \<in> set (t ! b)" by simp
  ultimately show ?thesis using assms(1) by (simp add: shape_def)
qed

lemma shape_assign_one:
  assumes "shape t B R C"
  shows "shape (assign_one bs P t) B R C"
proof -
  have "length p = R \<and> (\<forall>row \<in> set p. length row = C)" if "p \<in> set (assign_one bs P t)" for p
  proof -
    from that obtain b where b: "b < length t"
      and p: "p = (if b \<in> set bs
                   then map (\<lambda>row. map (\<lambda>c. if P c then 1 else row ! c) [0..<length row]) (t ! b)
                   else t ! b)"
      by (auto simp: assign_one_def)
    from b have "t ! b \<in> set t" by simp
    with assms have "length (t ! b) = R" "\<forall>row \<in> set (t ! b). length row = C"
      by (simp_all add: shape_def)
    with p show ?thesis by auto
  qed
  moreover have "length (assign_one bs P t) = B" using assms by (simp add: shape_def assign_one_def)
  ultimately show ?thesis by (simp add: shape_def)
qed

lemma nth_assign_one:
  assumes "shape t B R C" "b < B" "r < R" "c < C"
  shows "assign_one bs P t ! b ! r ! c = (if b \<in> set bs \<and> P c then 1 else t ! b ! r ! c)"
proof -
  have lb: "b < length t" using assms by (simp add: shape_def)
  have lr: "r < length (t ! b)" using assms by (simp add: shape_nth)
  have lc: "c < length (t ! b ! r)" using assms by (simp add: shape_nth_nth)
  show ?thesis
  proof (cases "b \<in> set bs")
    case True
    with lb have "assign_one bs P t ! b =
        map (\<lambda>row. map (\<lambda>c. if P c then 1 else row ! c) [0..<length row]) (t ! b)"
      by (simp add: assign_one_def)
    with lr lc True show ?thesis by simp
  next
    case False
    with lb show ?thesis by (simp add: assign_one_def)
  qed
qed

lemma hidden_Cons:
  "hidden len1 w1 w2 ((i, index) # es) b c \<longleftrightarrow>
     ((b = i \<or> b = len1 + i) \<and> index \<le> c \<and> c < last w1 + 1) \<or> (b = len1 + i \<and> c \<in> set w2) \<or>
     hidden len1 w1 w2 es b c"
  by (auto simp: hidden_def)

lemma targeted_Cons:
  "targeted len1 ((i, index) # es) b c \<longleftrightarrow>
     ((b = i \<or> b = len1 + i) \<and> c = index) \<or> targeted len1 es b c"
  by (auto simp: targeted_def)

lemma mask_loop_char:
  assumes "shape pm B R C" "shape tm B R' C"
    and "\<forall>c \<in> set w2. c < seqlen" "\<forall>(i, index) \<in> set es. index < seqlen"
  shows "\<exists>pm' tm'. mask_loop len1 w1 w2 seqlen es (pm, tm) = Inr (pm', tm') \<and>
           shape pm' B R C \<and> shape tm' B R' C \<and>
           (\<forall>b<B. \<forall>r<R. \<forall>c<C. pm' ! b ! r ! c = (if hidden len1 w1 w2 es b c then 1 else pm ! b ! r ! c)) \<and>
           (\<forall>b<B. \<forall>r<R'. \<forall>c<C. tm' ! b ! r ! c = (if targeted len1 es b c then 1 else tm ! b ! r ! c))"
  using assms
proof (induction es arbitrary: pm tm)
  case Nil
  then show ?case by (simp add: hidden_def targeted_def)
next
  case (Cons e es)
  obtain i index where e: "e = (i, index)" by (cases e)
  define pm1 where "pm1 = assign_one [i, len1 + i] (\<lambda>c. index \<le> c \<and> c < last w1 + 1) pm"
  define pm2 where "pm2 = assign_one [len1 + i] (\<lambda>c. c \<in> set w2) pm1"
  define tm2 where "tm2 = assign_one [i, len1 + i] (\<lambda>c. c = index) tm"
  have s1: "shape pm1 B R C" unfolding pm1_def using Cons.prems(1) by (rule shape_assign_one)
  then have s2: "shape pm2 B R C" unfolding pm2_def by (rule shape_assign_one)
  have st: "shape tm2 B R' C" unfolding tm2_def using Cons.prems(2) by (rule shape_assign_one)
  have rest: "\<forall>(i, index) \<in> set es. index < seqlen" using Cons.prems(4) by simp
  from Cons.IH[OF s2 st Cons.prems(3) rest]
  obtain pm' tm' where loop: "mask_loop len1 w1 w2 seqlen es (pm2, tm2) = Inr (pm', tm')"
    and sh: "shape pm' B R C" "shape tm' B R' C"
    and pmv: "\<And>b r c. b < B \<Longrightarrow> r < R \<Longrightarrow> c < C \<Longrightarrow>
               pm' ! b ! r ! c = (if hidden len1 w1 w2 es b c then 1 else pm2 ! b ! r ! c)"
    and tmv: "\<And>b r c. b < B \<Longrightarrow> r < R' \<Longrightarrow> c < C \<Longrightarrow>
               tm' ! b ! r ! c = (if targeted len1 es b c then 1 else tm2 ! b ! r ! c)"
    by blast
  have ok: "\<not> (\<exists>c \<in> set w2. seqlen \<le> c)" "\<not> seqlen \<le> index"
    using Cons.prems(3,4) e by auto
  have run: "mask_loop len1 w1 w2 seqlen (e # es) (pm, tm) = Inr (pm', tm')"
    using loop ok unfolding e pm2_def pm1_def tm2_def by (simp add: Let_def)
  have pm2v: "pm2 ! b ! r ! c =
      (if ((b = i \<or> b = len1 + i) \<and> index \<le> c \<and> c < last w1 + 1) \<or> (b = len1 + i \<and> c \<in> set w2)
       then 1 else pm ! b ! r ! c)" if "b < B" "r < R" "c < C" for b r c
  proof -
    have "pm2 ! b ! r ! c = (if b \<in> set [len1 + i] \<and> c \<in> set w2 then 1 else pm1 ! b ! r ! c)"
      unfolding pm2_def by (rule nth_assign_one[OF s1 that])
    moreover have "pm1 ! b ! r ! c =
        (if b \<in> set [i, len1 + i] \<and> (index \<le> c \<and> c < last w1 + 1) then 1 else pm ! b ! r ! c)"
      unfolding pm1_def by (rule nth_assign_one[OF Cons.prems(1) that])
    ultimately show ?thesis by auto
  qed
  have tm2v: "tm2 ! b ! r ! c = (if (b = i \<or> b = len1 + i) \<and> c = index then 1 else tm ! b ! r ! c)"
    if "b < B" "r < R'" "c < C" for b r c
  proof -
    have "tm2 ! b ! r ! c = (if b \<in> set [i, len1 + i] \<and> c = index then 1 else tm ! b ! r ! c)"
      unfolding tm2_def by (rule nth_assign_one[OF Cons.prems(2) that])
    then show ?thesis by auto
  qed
  have "pm' ! b ! r ! c = (if hidden len1 w1 w2 (e # es) b c then 1 else pm ! b ! r ! c)"
    if "b < B" "r < R" "c < C" for b r c
    unfolding pmv[OF that] pm2v[OF that] e hidden_Cons by auto
  moreover have "tm' ! b ! r ! c = (if targeted len1 (e # es) b c then 1 else tm ! b ! r ! c)"
    if "b < B" "r < R'" "c < C" for b r c
    unfolding tmv[OF that] tm2v[OF that] e targeted_Cons by auto
  ultimately show ?case using run sh by blast
qed


lemma in_enumerate_upt:
  "(i, index) \<in> set (enumerate 0 [a0..<a0 + l]) \<longleftrightarrow> i < l \<and> index = a0 + i"
  by (auto simp: in_set_enumerate_eq)

lemma bex_enumerate_upt:
  "(\<exists>(i, index) \<in> set (enumerate 0 [a0..<a0 + l]). P i index) \<longleftrightarrow> (\<exists>i<l. P i (a0 + i))"
proof
  assume "\<exists>(i, index) \<in> set (enumerate 0 [a0..<a0 + l]). P i index"
  then obtain i index where "(i, index) \<in> set (enumerate 0 [a0..<a0 + l])" "P i index" by auto
  then have "i < l" "P i (a0 + i)" by (simp_all add: in_enumerate_upt)
  then show "\<exists>i<l. P i (a0 + i)" by blast
next
  assume "\<exists>i<l. P i (a0 + i)"
  then obtain i where "i < l" "P i (a0 + i)" by blast
  then have "(i, a0 + i) \<in> set (enumerate 0 [a0..<a0 + l])" by (simp add: in_enumerate_upt)
  with \<open>P i (a0 + i)\<close> show "\<exists>(i, index) \<in> set (enumerate 0 [a0..<a0 + l]). P i index" by blast
qed

lemma hidden_numerator:
  assumes "k < l"
  shows "hidden l [a0..<a0 + l] w2 (enumerate 0 [a0..<a0 + l]) k c \<longleftrightarrow> a0 + k \<le> c \<and> c < a0 + l"
proof -
  from assms have last: "last [a0..<a0 + l] + 1 = a0 + l" by simp
  have "hidden l [a0..<a0 + l] w2 (enumerate 0 [a0..<a0 + l]) k c \<longleftrightarrow>
          (\<exists>i<l. ((k = i \<or> k = l + i) \<and> a0 + i \<le> c \<and> c < a0 + l) \<or> (k = l + i \<and> c \<in> set w2))"
    by (simp only: hidden_def last bex_enumerate_upt)
  also have "\<dots> \<longleftrightarrow> a0 + k \<le> c \<and> c < a0 + l" using assms by auto
  finally show ?thesis .
qed

lemma hidden_denominator:
  assumes "k < l"
  shows "hidden l [a0..<a0 + l] w2 (enumerate 0 [a0..<a0 + l]) (l + k) c \<longleftrightarrow>
           (a0 + k \<le> c \<and> c < a0 + l) \<or> c \<in> set w2"
proof -
  from assms have last: "last [a0..<a0 + l] + 1 = a0 + l" by simp
  have "hidden l [a0..<a0 + l] w2 (enumerate 0 [a0..<a0 + l]) (l + k) c \<longleftrightarrow>
          (\<exists>i<l. ((l + k = i \<or> l + k = l + i) \<and> a0 + i \<le> c \<and> c < a0 + l) \<or> (l + k = l + i \<and> c \<in> set w2))"
    by (simp only: hidden_def last bex_enumerate_upt)
  also have "\<dots> \<longleftrightarrow> (a0 + k \<le> c \<and> c < a0 + l) \<or> c \<in> set w2" using assms by auto
  finally show ?thesis .
qed

lemma targeted_rows:
  assumes "k < l"
  shows "targeted l (enumerate 0 [a0..<a0 + l]) k c \<longleftrightarrow> c = a0 + k"
    and "targeted l (enumerate 0 [a0..<a0 + l]) (l + k) c \<longleftrightarrow> c = a0 + k"
proof -
  have "targeted l (enumerate 0 [a0..<a0 + l]) b c \<longleftrightarrow> (\<exists>i<l. (b = i \<or> b = l + i) \<and> c = a0 + i)" for b
    by (simp only: targeted_def bex_enumerate_upt)
  with assms show "targeted l (enumerate 0 [a0..<a0 + l]) k c \<longleftrightarrow> c = a0 + k"
    and "targeted l (enumerate 0 [a0..<a0 + l]) (l + k) c \<longleftrightarrow> c = a0 + k" by auto
qed

lemma single_pair_char:
  assumes "a0 + l \<le> seqlen" "\<forall>c \<in> set w2. c < seqlen"
  shows "\<exists>pm tm. make_mask_and_mapping_single_pair [a0..<a0 + l] w2 seqlen = Inr (pm, tm) \<and>
           shape pm (2 * l) seqlen seqlen \<and> shape tm (2 * l) 1 seqlen \<and>
           (\<forall>k<l. \<forall>r<seqlen. \<forall>c<seqlen.
              pm ! k ! r ! c = (if a0 + k \<le> c \<and> c < a0 + l then 1 else 0) \<and>
              pm ! (l + k) ! r ! c = (if (a0 + k \<le> c \<and> c < a0 + l) \<or> c \<in> set w2 then 1 else 0)) \<and>
           (\<forall>k<l. \<forall>c<seqlen.
              tm ! k ! 0 ! c = (if c = a0 + k then 1 else 0) \<and>
              tm ! (l + k) ! 0 ! c = (if c = a0 + k then 1 else 0))"
proof -
  let ?w1 = "[a0..<a0 + l]"
  let ?es = "enumerate 0 ?w1"
  have idx: "\<forall>(i, index) \<in> set ?es. index < seqlen"
    using assms(1) by (auto simp: in_enumerate_upt)
  from mask_loop_char[of "zeros (2 * l) seqlen seqlen" "2 * l" seqlen seqlen "zeros (2 * l) 1 seqlen" 1
        w2 seqlen ?es l ?w1, OF shape_zeros shape_zeros assms(2) idx]
  obtain pm tm where all: "mask_loop l ?w1 w2 seqlen ?es (zeros (2 * l) seqlen seqlen, zeros (2 * l) 1 seqlen) = Inr (pm, tm) \<and>
      shape pm (2 * l) seqlen seqlen \<and> shape tm (2 * l) 1 seqlen \<and>
      (\<forall>b<2 * l. \<forall>r<seqlen. \<forall>c<seqlen.
          pm ! b ! r ! c = (if hidden l ?w1 w2 ?es b c then 1 else zeros (2 * l) seqlen seqlen ! b ! r ! c)) \<and>
      (\<forall>b<2 * l. \<forall>r<1. \<forall>c<seqlen.
          tm ! b ! r ! c = (if targeted l ?es b c then 1 else zeros (2 * l) 1 seqlen ! b ! r ! c))"
    by (elim exE)
  note run = all[THEN conjunct1]
  note sh = all[THEN conjunct2, THEN conjunct1] all[THEN conjunct2, THEN conjunct2, THEN conjunct1]
  note pm_all = all[THEN conjunct2, THEN conjunct2, THEN conjunct2, THEN conjunct1, rule_format]
  note tm_all = all[THEN conjunct2, THEN conjunct2, THEN conjunct2, THEN conjunct2, rule_format]
  have pmv: "pm ! b ! r ! c = (if hidden l ?w1 w2 ?es b c then 1 else 0)"
    if "b < 2 * l" "r < seqlen" "c < seqlen" for b r c
    unfolding pm_all[OF that] nth_zeros[OF that] ..
  have tmv: "tm ! b ! 0 ! c = (if targeted l ?es b c then 1 else 0)"
    if "b < 2 * l" "c < seqlen" for b c
  proof -
    have z: "0 < (1::nat)" by simp
    show ?thesis unfolding tm_all[OF that(1) z that(2)] nth_zeros[OF that(1) z that(2)] ..
  qed
  have res: "make_mask_and_mapping_single_pair ?w1 w2 seqlen = Inr (pm, tm)"
    using run by (simp add: make_mask_and_mapping_single_pair_def Let_def mult.commute)
  have 1: "pm ! k ! r ! c = (if a0 + k \<le> c \<and> c < a0 + l then 1 else 0) \<and>
           pm ! (l + k) ! r ! c = (if (a0 + k \<le> c \<and> c < a0 + l) \<or> c \<in> set w2 then 1 else 0)"
    if "k < l" "r < seqlen" "c < seqlen" for k r c
  proof -
    from that have b: "k < 2 * l" "l + k < 2 * l" by simp_all
    show ?thesis
      unfolding pmv[OF b(1) that(2,3)] pmv[OF b(2) that(2,3)]
        hidden_numerator[OF that(1)] hidden_denominator[OF that(1)] by simp
  qed
  have 2: "tm ! k ! 0 ! c = (if c = a0 + k then 1 else 0) \<and>
           tm ! (l + k) ! 0 ! c = (if c = a0 + k then 1 else 0)"
    if "k < l" "c < seqlen" for k c
  proof -
    from that have b: "k < 2 * l" "l + k < 2 * l" by simp_all
    show ?thesis
      unfolding tmv[OF b(1) that(2)] tmv[OF b(2) that(2)] targeted_rows[OF that(1)] by simp
  qed
  from res sh 1 2 show ?thesis by blast
qed

section \<open>PMI estimation\<close>

text \<open>
  The network followed by \<open>log_softmax\<close> is a parameter \<open>model\<close> of the functions that call
  it: a \<open>batch_model\<close> takes what one call passes, the input ids of every batch row and the
  whole permutation mask and target mapping of the batch, and returns for every row of its
  answer the log-probability of each vocabulary id. Nothing is assumed about it; in particular
  its answer for one row may depend on the other rows of the call. A \<open>predictor\<close> answers one
  row from that row alone, and \<open>rowwise row\<close> is the model that answers every batch row by row
  with \<open>row\<close>, while \<open>answers_from_first_row row\<close> answers every row of a call with what \<open>row\<close>
  gives for the first row of that call. \<open>model_batch row ids perm_mask target_mapping\<close> is not
  a function of the program: it lists the answers of \<open>row\<close> when every batch row has the input
  ids \<open>ids\<close>. The type of log-probabilities is left open where the code only adds and
  subtracts them.
  \<open>get_pmi_from_outputs\<close> views its outputs as a numerator half and a denominator half of
  \<open>len1\<close> rows each; this is modelled for a batch of exactly \<open>2 * len1\<close> rows with \<open>len1 > 0\<close>,
  and any other batch is reported as \<open>ValueError\<close>, although \<open>reshape\<close> accepts some other
  numbers of rows and \<open>view\<close> raises \<open>RuntimeError\<close> on an empty span; no statement below
  concerns such a batch. \<open>pmi_between_spans\<close> of the span-as-batch
  file repeats the input ids once per batch row, plans the requests, asks the model and reduces
  the outputs with the same statements.
\<close>

instantiation pyfloat :: "{zero, plus, minus, uminus}"
begin

definition zero_pyfloat :: pyfloat where
  "zero_pyfloat = Num (Fin 0)"

fun plus_pyfloat :: "pyfloat \<Rightarrow> pyfloat \<Rightarrow> pyfloat" where
  "plus_pyfloat NaN y = NaN"
| "plus_pyfloat (Num x) NaN = NaN"
| "plus_pyfloat (Num (Fin a)) (Num (Fin b)) = Num (Fin (a + b))"
| "plus_pyfloat (Num (Fin a)) (Num y) = Num y"
| "plus_pyfloat (Num PInf) (Num NInf) = NaN"
| "plus_pyfloat (Num NInf) (Num PInf) = NaN"
| "plus_pyfloat (Num x) (Num y) = Num x"

fun uminus_pyfloat :: "pyfloat \<Rightarrow> pyfloat" where
  "uminus_pyfloat NaN = NaN"
| "uminus_pyfloat (Num NInf) = Num PInf"
| "uminus_pyfloat (Num (Fin a)) = Num (Fin (- a))"
| "uminus_pyfloat (Num PInf) = Num NInf"

definition minus_pyfloat :: "pyfloat \<Rightarrow> pyfloat \<Rightarrow> pyfloat" where
  "minus_pyfloat x y = x + (- y)"

instance ..

end

type_synonym 'v batch_model = "int list list \<Rightarrow> tensor \<Rightarrow> tensor \<Rightarrow> (int \<Rightarrow> 'v) list"

type_synonym 'v predictor = "int list \<Rightarrow> real list list \<Rightarrow> real list list \<Rightarrow> int \<Rightarrow> 'v"

definition rowwise :: "'v predictor \<Rightarrow> 'v batch_model" where
  "rowwise row input_ids perm_mask target_mapping =
     map (\<lambda>(ids, pm, tm). row ids pm tm) (zip input_ids (zip perm_mask target_mapping))"

definition answers_from_first_row :: "'v predictor \<Rightarrow> 'v batch_model" where
  "answers_from_first_row row input_ids perm_mask target_mapping =
     map (\<lambda>pm. row (hd input_ids) (hd perm_mask) (hd target_mapping)) perm_mask"

definition model_batch :: "'v predictor \<Rightarrow> int list \<Rightarrow> tensor \<Rightarrow> tensor \<Rightarrow> (int \<Rightarrow> 'v) list" where
  "model_batch model input_ids perm_mask target_mapping =
     map (\<lambda>(pm, tm). model input_ids pm tm) (zip perm_mask target_mapping)"

definition py_sum :: "'v::{zero,plus} list \<Rightarrow> 'v" where
  "py_sum xs = foldl (+) 0 xs"

definition get_pmi_from_outputs :: "(int \<Rightarrow> 'v::{zero,plus,minus}) list \<Rightarrow> nat list \<Rightarrow> int list \<Rightarrow> error + 'v" where
  "get_pmi_from_outputs outputs w1_indices sentence_as_ids =
     (let len1 = length w1_indices
      in if len1 = 0 \<or> length outputs \<noteq> 2 * len1 then Inl ValueError
         else if \<exists>w1_index \<in> set w1_indices. length sentence_as_ids \<le> w1_index then Inl IndexError
         else
           let log_numerator = py_sum (map (\<lambda>(i, w1_index).
                   (outputs ! i) (sentence_as_ids ! w1_index)) (enumerate 0 w1_indices));
               log_denominator = py_sum (map (\<lambda>(i, w1_index).
                   (outputs ! (len1 + i)) (sentence_as_ids ! w1_index)) (enumerate 0 w1_indices))
           in Inr (log_numerator - log_denominator))"

definition pmi_between_spans :: "('v::{zero,plus,minus}) batch_model \<Rightarrow> nat list \<Rightarrow> nat list \<Rightarrow> int list \<Rightarrow> error + 'v" where
  "pmi_between_spans model w1_indices w2_indices sentence_as_ids =
     (let seqlen = length sentence_as_ids;
          len1 = length w1_indices;
          batch_size = len1 * 2;
          input_ids = replicate batch_size sentence_as_ids
      in case make_mask_and_mapping_single_pair w1_indices w2_indices seqlen of
           Inl e \<Rightarrow> Inl e
         | Inr (perm_mask, target_mapping) \<Rightarrow>
             get_pmi_from_outputs (model input_ids perm_mask target_mapping)
               w1_indices sentence_as_ids)"


lemma map_enumerate_nth:
  "map (\<lambda>(i, x). f i x) (enumerate 0 xs) = map (\<lambda>k. f k (xs ! k)) [0..<length xs]"
  by (rule nth_equalityI) (simp_all add: nth_enumerate_eq)

lemma get_pmi_from_outputs_eq:
  assumes "0 < length w1" "length outputs = 2 * length w1" "\<forall>x \<in> set w1. x < length ids"
  shows "get_pmi_from_outputs outputs w1 ids =
           Inr (py_sum (map (\<lambda>k. (outputs ! k) (ids ! (w1 ! k))) [0..<length w1]) -
                py_sum (map (\<lambda>k. (outputs ! (length w1 + k)) (ids ! (w1 ! k))) [0..<length w1]))"
proof -
  have "\<not> (\<exists>w1_index \<in> set w1. length ids \<le> w1_index)" using assms(3) by auto
  with assms(1,2) show ?thesis
    by (simp add: get_pmi_from_outputs_def Let_def map_enumerate_nth)
qed

lemma model_batch_nth:
  "b < length pm \<Longrightarrow> length tm = length pm \<Longrightarrow>
   model_batch model ids pm tm ! b = model ids (pm ! b) (tm ! b)"
  by (simp add: model_batch_def)

lemma length_model_batch:
  "length tm = length pm \<Longrightarrow> length (model_batch model ids pm tm) = length pm"
  by (simp add: model_batch_def)

lemma rowwise_replicate:
  assumes "length pm \<le> n"
  shows "rowwise row (replicate n ids) pm tm = model_batch row ids pm tm"
proof (rule nth_equalityI)
  show "length (rowwise row (replicate n ids) pm tm) = length (model_batch row ids pm tm)"
    using assms by (simp add: rowwise_def model_batch_def)
next
  fix k assume "k < length (rowwise row (replicate n ids) pm tm)"
  then have "k < n" "k < length pm" "k < length tm" by (simp_all add: rowwise_def)
  then show "rowwise row (replicate n ids) pm tm ! k = model_batch row ids pm tm ! k"
    by (simp add: rowwise_def model_batch_def)
qed

lemma pmi_between_spans_rowwise:
  assumes "make_mask_and_mapping_single_pair w1 w2 (length ids) = Inr (pm, tm)"
    and "length pm \<le> 2 * length w1"
  shows "pmi_between_spans (rowwise row) w1 w2 ids =
           get_pmi_from_outputs (model_batch row ids pm tm) w1 ids"
proof -
  from assms(2) have "length pm \<le> length w1 * 2" by simp
  then have "rowwise row (replicate (length w1 * 2) ids) pm tm = model_batch row ids pm tm"
    by (rule rowwise_replicate)
  with assms(1) show ?thesis by (simp add: pmi_between_spans_def Let_def)
qed

lemma pmi_between_spans_eq:
  assumes mk: "make_mask_and_mapping_single_pair w1 w2 (length ids) = Inr (pm, tm)"
    and len: "length pm = 2 * length w1" "length tm = 2 * length w1"
    and w1: "0 < length w1" "\<forall>x \<in> set w1. x < length ids"
  shows "pmi_between_spans (rowwise model) w1 w2 ids =
           Inr (py_sum (map (\<lambda>k. model ids (pm ! k) (tm ! k) (ids ! (w1 ! k))) [0..<length w1]) -
                py_sum (map (\<lambda>k. model ids (pm ! (length w1 + k)) (tm ! (length w1 + k)) (ids ! (w1 ! k)))
                          [0..<length w1]))"
proof -
  let ?out = "model_batch model ids pm tm"
  have lo: "length ?out = 2 * length w1" using len by (simp add: length_model_batch)
  have n1: "map (\<lambda>k. (?out ! k) (ids ! (w1 ! k))) [0..<length w1] =
            map (\<lambda>k. model ids (pm ! k) (tm ! k) (ids ! (w1 ! k))) [0..<length w1]"
    using len by (intro map_cong) (simp_all add: model_batch_nth)
  have n2: "map (\<lambda>k. (?out ! (length w1 + k)) (ids ! (w1 ! k))) [0..<length w1] =
            map (\<lambda>k. model ids (pm ! (length w1 + k)) (tm ! (length w1 + k)) (ids ! (w1 ! k))) [0..<length w1]"
    using len by (intro map_cong) (simp_all add: model_batch_nth)
  have "pmi_between_spans (rowwise model) w1 w2 ids = get_pmi_from_outputs ?out w1 ids"
    using mk len(1) by (intro pmi_between_spans_rowwise) simp_all
  also have "\<dots> = Inr (py_sum (map (\<lambda>k. (?out ! k) (ids ! (w1 ! k))) [0..<length w1]) -
                py_sum (map (\<lambda>k. (?out ! (length w1 + k)) (ids ! (w1 ! k))) [0..<length w1]))"
    using w1(1) lo w1(2) by (rule get_pmi_from_outputs_eq)
  finally show ?thesis unfolding n1 n2 .
qed

lemma shape_length: "shape t B R C \<Longrightarrow> length t = B"
  by (simp add: shape_def)

text \<open>
  C7 (as amended). For a target span \<open>A = [a0, \<dots>, a0 + l - 1]\<close> and a context span \<open>B\<close> that
  shares no sub-token with \<open>A\<close>, both inside a sentence of \<open>seqlen\<close> sub-tokens, the planner
  returns \<open>2 * l\<close> requests. Requests \<open>k\<close> and \<open>l + k\<close> target the sub-token \<open>a0 + k\<close> and
  nothing else. Request \<open>k\<close> hides exactly the sub-tokens \<open>a0 + k, \<dots>, a0 + l - 1\<close> of \<open>A\<close>, so
  the part of \<open>A\<close> to the left of the target and all of \<open>B\<close> stay visible; request \<open>l + k\<close> hides
  these and all of \<open>B\<close>, and still shows the part of \<open>A\<close> to the left of the target. The PMI is
  the sum of the log-probabilities that the first \<open>l\<close> requests give to their targets minus the
  same sum over the last \<open>l\<close> requests; it is written out for a model that answers each request
  with \<open>model\<close>.
\<close>

theorem single_pair_query_plan:
  assumes "a0 + l \<le> seqlen" "\<forall>c \<in> set w2. c < seqlen" "set w2 \<inter> {a0..<a0 + l} = {}"
  shows "\<exists>pm tm. make_mask_and_mapping_single_pair [a0..<a0 + l] w2 seqlen = Inr (pm, tm) \<and>
     length pm = 2 * l \<and> length tm = 2 * l \<and>
     (\<forall>k<l. \<forall>c<seqlen.
         tm ! k ! 0 ! c = (if c = a0 + k then 1 else 0) \<and>
         tm ! (l + k) ! 0 ! c = (if c = a0 + k then 1 else 0) \<and>
         (\<forall>r<seqlen.
            pm ! k ! r ! c = (if a0 + k \<le> c \<and> c < a0 + l then 1 else 0) \<and>
            pm ! (l + k) ! r ! c = (if (a0 + k \<le> c \<and> c < a0 + l) \<or> c \<in> set w2 then 1 else 0))) \<and>
     (\<forall>k<l. \<forall>r<seqlen.
         (\<forall>c \<in> set w2. pm ! k ! r ! c = 0 \<and> pm ! (l + k) ! r ! c = 1) \<and>
         (\<forall>c \<in> {a0..<a0 + k}. pm ! k ! r ! c = 0 \<and> pm ! (l + k) ! r ! c = 0)) \<and>
     (0 < l \<and> seqlen = length sentence_as_ids \<longrightarrow>
        pmi_between_spans (rowwise model) [a0..<a0 + l] w2 sentence_as_ids =
          Inr (py_sum (map (\<lambda>k. model sentence_as_ids (pm ! k) (tm ! k)
                                (sentence_as_ids ! (a0 + k))) [0..<l]) -
               py_sum (map (\<lambda>k. model sentence_as_ids (pm ! (l + k)) (tm ! (l + k))
                                (sentence_as_ids ! (a0 + k))) [0..<l])))"
proof -
  from single_pair_char[OF assms(1,2)]
  obtain pm tm where all: "make_mask_and_mapping_single_pair [a0..<a0 + l] w2 seqlen = Inr (pm, tm) \<and>
           shape pm (2 * l) seqlen seqlen \<and> shape tm (2 * l) 1 seqlen \<and>
           (\<forall>k<l. \<forall>r<seqlen. \<forall>c<seqlen.
              pm ! k ! r ! c = (if a0 + k \<le> c \<and> c < a0 + l then 1 else 0) \<and>
              pm ! (l + k) ! r ! c = (if (a0 + k \<le> c \<and> c < a0 + l) \<or> c \<in> set w2 then 1 else 0)) \<and>
           (\<forall>k<l. \<forall>c<seqlen.
              tm ! k ! 0 ! c = (if c = a0 + k then 1 else 0) \<and>
              tm ! (l + k) ! 0 ! c = (if c = a0 + k then 1 else 0))"
    by (elim exE)
  note mk = all[THEN conjunct1]
  note lpm = all[THEN conjunct2, THEN conjunct1, THEN shape_length]
  note ltm = all[THEN conjunct2, THEN conjunct2, THEN conjunct1, THEN shape_length]
  note pmv = all[THEN conjunct2, THEN conjunct2, THEN conjunct2, THEN conjunct1, rule_format]
  note tmv = all[THEN conjunct2, THEN conjunct2, THEN conjunct2, THEN conjunct2, rule_format]
  have 1: "tm ! k ! 0 ! c = (if c = a0 + k then 1 else 0) \<and>
           tm ! (l + k) ! 0 ! c = (if c = a0 + k then 1 else 0) \<and>
           (\<forall>r<seqlen.
              pm ! k ! r ! c = (if a0 + k \<le> c \<and> c < a0 + l then 1 else 0) \<and>
              pm ! (l + k) ! r ! c = (if (a0 + k \<le> c \<and> c < a0 + l) \<or> c \<in> set w2 then 1 else 0))"
    if "k < l" "c < seqlen" for k c
    using tmv[OF that] pmv[OF that(1) _ that(2)] by blast
  have 2: "(\<forall>c \<in> set w2. pm ! k ! r ! c = 0 \<and> pm ! (l + k) ! r ! c = 1) \<and>
           (\<forall>c \<in> {a0..<a0 + k}. pm ! k ! r ! c = 0 \<and> pm ! (l + k) ! r ! c = 0)"
    if "k < l" "r < seqlen" for k r
  proof (intro conjI ballI)
    fix c assume c: "c \<in> set w2"
    with assms(2) have cs: "c < seqlen" by simp
    from c assms(3) have "\<not> (a0 + k \<le> c \<and> c < a0 + l)" by auto
    with pmv[OF that cs] c show "pm ! k ! r ! c = 0" "pm ! (l + k) ! r ! c = 1" by simp_all
  next
    fix c assume c: "c \<in> {a0..<a0 + k}"
    with that(1) assms(1) have cs: "c < seqlen" by simp
    from c that(1) assms(3) have "c \<notin> set w2" by auto
    moreover from c have "\<not> (a0 + k \<le> c \<and> c < a0 + l)" by simp
    ultimately show "pm ! k ! r ! c = 0" "pm ! (l + k) ! r ! c = 0" using pmv[OF that cs] by simp_all
  qed
  have 3: "pmi_between_spans (rowwise model) [a0..<a0 + l] w2 sentence_as_ids =
          Inr (py_sum (map (\<lambda>k. model sentence_as_ids (pm ! k) (tm ! k)
                                (sentence_as_ids ! (a0 + k))) [0..<l]) -
               py_sum (map (\<lambda>k. model sentence_as_ids (pm ! (l + k)) (tm ! (l + k))
                                (sentence_as_ids ! (a0 + k))) [0..<l]))"
    if "0 < l" "seqlen = length sentence_as_ids"
  proof -
    have a: "make_mask_and_mapping_single_pair [a0..<a0 + l] w2 (length sentence_as_ids) = Inr (pm, tm)"
      using mk that(2) by simp
    have b: "length pm = 2 * length [a0..<a0 + l]" "length tm = 2 * length [a0..<a0 + l]"
      using lpm ltm by simp_all
    have c: "0 < length [a0..<a0 + l]" "\<forall>x \<in> set [a0..<a0 + l]. x < length sentence_as_ids"
      using that assms(1) by simp_all
    have d: "map (\<lambda>k. f k ([a0..<a0 + l] ! k)) [0..<l] = map (\<lambda>k. f k (a0 + k)) [0..<l]" for f :: "nat \<Rightarrow> nat \<Rightarrow> 'a"
      by (intro map_cong) simp_all
    from pmi_between_spans_eq[OF a b c, of model]
    show ?thesis
      using d[of "\<lambda>k x. model sentence_as_ids (pm ! k) (tm ! k) (sentence_as_ids ! x)"]
        d[of "\<lambda>k x. model sentence_as_ids (pm ! (l + k)) (tm ! (l + k)) (sentence_as_ids ! x)"]
      by simp
  qed
  from mk lpm ltm 1 2 3 show ?thesis by blast
qed


theorem single_pair_query_plan_witness:
  "make_mask_and_mapping_single_pair [1, 2] [0] 5 =
     Inr ([[[0, 1, 1, 0, 0], [0, 1, 1, 0, 0], [0, 1, 1, 0, 0], [0, 1, 1, 0, 0], [0, 1, 1, 0, 0]],
           [[0, 0, 1, 0, 0], [0, 0, 1, 0, 0], [0, 0, 1, 0, 0], [0, 0, 1, 0, 0], [0, 0, 1, 0, 0]],
           [[1, 1, 1, 0, 0], [1, 1, 1, 0, 0], [1, 1, 1, 0, 0], [1, 1, 1, 0, 0], [1, 1, 1, 0, 0]],
           [[1, 0, 1, 0, 0], [1, 0, 1, 0, 0], [1, 0, 1, 0, 0], [1, 0, 1, 0, 0], [1, 0, 1, 0, 0]]],
          [[[0, 1, 0, 0, 0]], [[0, 0, 1, 0, 0]], [[0, 1, 0, 0, 0]], [[0, 0, 1, 0, 0]]]) \<and>
   pmi_between_spans (rowwise (\<lambda>ids pm tm v. Num (Fin (- sum_list (pm ! 0))))) [1, 2] [0]
     [5, 6, 7, 4, 3] =
     Inr (Num (Fin 2))"
proof -
  let ?PM = "[[[0, 1, 1, 0, 0], [0, 1, 1, 0, 0], [0, 1, 1, 0, 0], [0, 1, 1, 0, 0], [0, 1, 1, 0, 0]],
           [[0, 0, 1, 0, 0], [0, 0, 1, 0, 0], [0, 0, 1, 0, 0], [0, 0, 1, 0, 0], [0, 0, 1, 0, 0]],
           [[1, 1, 1, 0, 0], [1, 1, 1, 0, 0], [1, 1, 1, 0, 0], [1, 1, 1, 0, 0], [1, 1, 1, 0, 0]],
           [[1, 0, 1, 0, 0], [1, 0, 1, 0, 0], [1, 0, 1, 0, 0], [1, 0, 1, 0, 0], [1, 0, 1, 0, 0]]] :: tensor"
  let ?TM = "[[[0, 1, 0, 0, 0]], [[0, 0, 1, 0, 0]], [[0, 1, 0, 0, 0]], [[0, 0, 1, 0, 0]]] :: tensor"
  let ?model = "\<lambda>(ids :: int list) (pm :: real list list) (tm :: real list list) (v :: int).
                  Num (Fin (- sum_list (pm ! 0)))"
  have w1: "[1..<1 + 2] = [1, 2]" by (simp add: upt_rec)
  have e: "make_mask_and_mapping_single_pair [1, 2] [0] 5 = Inr (?PM, ?TM)" by code_simp
  have h: "1 + 2 \<le> (5::nat)" "\<forall>c \<in> set [0::nat]. c < 5" "set [0::nat] \<inter> {1..<1 + 2} = {}"
    by simp_all
  from single_pair_query_plan[OF h, of "[5, 6, 7, 4, 3]" ?model]
  obtain pm tm where mk: "make_mask_and_mapping_single_pair [1..<1 + 2] [0] 5 = Inr (pm, tm)"
    and hid: "\<forall>k<2. \<forall>r<5. (\<forall>c \<in> set [0]. pm ! k ! r ! c = 0 \<and> pm ! (2 + k) ! r ! c = 1) \<and>
                (\<forall>c \<in> {1..<1 + k}. pm ! k ! r ! c = 0 \<and> pm ! (2 + k) ! r ! c = 0)"
    by blast
  from mk have "make_mask_and_mapping_single_pair [1, 2] [0] 5 = Inr (pm, tm)"
    by (simp only: w1)
  with e have pm: "pm = ?PM" by simp
  from hid[rule_format, of 1 0] have "pm ! 1 ! 0 ! 0 = 0 \<and> pm ! (2 + 1) ! 0 ! 0 = 1" by simp
  with pm have v: "?PM ! 1 ! 0 ! 0 = 0 \<and> ?PM ! (2 + 1) ! 0 ! 0 = 1" by simp
  have p: "pmi_between_spans (rowwise ?model) [1, 2] [0] [5, 6, 7, 4, 3] = Inr (Num (Fin 2))"
    by code_simp
  from e p v show ?thesis by simp
qed

text \<open>
  The claim C7 as it was stated fails when the context span is the target span itself, as for
  the pair \<open>(0, 0)\<close> of a one-word sentence in the batched planner: the numerator request (the
  first one) hides sub-token \<open>0\<close>, which is all of \<open>B\<close>.
\<close>

theorem single_pair_same_span_hides_context:
  "make_mask_and_mapping_single_pair [0] [0] 3 =
     Inr ([[[1, 0, 0], [1, 0, 0], [1, 0, 0]], [[1, 0, 0], [1, 0, 0], [1, 0, 0]]],
          [[[1, 0, 0]], [[1, 0, 0]]])"
  by code_simp


subsection \<open>The two strategies\<close>

text \<open>
  Both strategies start from \<open>make_subword_lists(ptb_tokenlist)\<close>, the list of the sub-token
  lists of the words followed by \<open>['<sep>']\<close> and \<open>['<cls>']\<close>. The tokenizer is not modelled:
  the functions below take that list as \<open>subwords_nested\<close>, and the number of words
  \<open>len(ptb_tokenlist)\<close> is its length less two. No list that \<open>make_subword_lists\<close> returns is
  empty, since its adjustment loop reads \<open>subword_list_i[0]\<close> of every list after the only
  removal that could empty one. \<open>convert_tokens_to_ids\<close> is a parameter applied to
  each sub-token. The batched strategy calls the model once per chunk, with the chunk's rows
  of the two tensors and the input ids repeated once per row. \<open>sequence_res\<close> collects the results of a comprehension or of a loop that fills
  an array, stopping at the first exception. \<open>py_slice start stop xs\<close> is \<open>xs[start:stop]\<close> and
  \<open>np_cumsum\<close> is \<open>np.cumsum\<close>.
\<close>

fun sequence_res :: "(error + 'a) list \<Rightarrow> error + 'a list" where
  "sequence_res [] = Inr []"
| "sequence_res (Inl e # rs) = Inl e"
| "sequence_res (Inr x # rs) = (case sequence_res rs of Inl e \<Rightarrow> Inl e | Inr xs \<Rightarrow> Inr (x # xs))"

definition get_pmi_between_PTBwords :: "('v::{zero,plus,minus}) batch_model \<Rightarrow> ('tok \<Rightarrow> int) \<Rightarrow> nat \<Rightarrow> nat \<Rightarrow> 'tok list list \<Rightarrow> error + 'v" where
  "get_pmi_between_PTBwords model convert_tokens_to_ids w1 w2 subwords_nested =
     (case word_index_to_subword_indices (int w1) subwords_nested of
        Inl e \<Rightarrow> Inl e
      | Inr w1_indices \<Rightarrow>
          (case word_index_to_subword_indices (int w2) subwords_nested of
             Inl e \<Rightarrow> Inl e
           | Inr w2_indices \<Rightarrow>
               let flattened_sentence = concat subwords_nested;
                   sentence_as_ids = map convert_tokens_to_ids flattened_sentence
               in pmi_between_spans model w1_indices w2_indices sentence_as_ids))"

definition get_pmi_matrix_using_spans :: "pyfloat batch_model \<Rightarrow> ('tok \<Rightarrow> int) \<Rightarrow> 'tok list list \<Rightarrow> error + pyfloat list list" where
  "get_pmi_matrix_using_spans model convert_tokens_to_ids subwords_nested =
     (let slength = length subwords_nested - 2
      in sequence_res (map (\<lambda>w1_index. sequence_res (map (\<lambda>w2_index.
             if w2_index = w1_index then Inr NaN
             else get_pmi_between_PTBwords model convert_tokens_to_ids w1_index w2_index subwords_nested)
           [0..<slength])) [0..<slength]))"

definition make_mask_and_mapping :: "nat list list \<Rightarrow> error + tensor \<times> tensor" where
  "make_mask_and_mapping indices =
     (let seqlen = length (concat indices) + 2
      in case sequence_res (concat (map (\<lambda>i. map (\<lambda>j.
                make_mask_and_mapping_single_pair (indices ! i) (indices ! j) seqlen)
              [0..<length indices]) [0..<length indices])) of
           Inl e \<Rightarrow> Inl e
         | Inr pairs \<Rightarrow>
             if pairs = [] then Inl RuntimeError
             else Inr (concat (map fst pairs), concat (map snd pairs)))"

definition make_chunks :: "nat \<Rightarrow> nat \<Rightarrow> error + (nat \<times> nat) list" where
  "make_chunks m n =
     (if n = 0 then Inl ZeroDivisionError
      else
        let r = m mod n;
            d = m div n;
            chunked = map (\<lambda>i. (n * i, n * (i + 1))) [0..<d]
        in Inr (if r \<noteq> 0 then chunked @ [(d * n, d * n + r)] else chunked))"

definition py_slice :: "nat \<Rightarrow> nat \<Rightarrow> 'a list \<Rightarrow> 'a list" where
  "py_slice start stop xs = take (stop - start) (drop start xs)"

definition np_cumsum :: "nat list \<Rightarrow> nat list" where
  "np_cumsum xs = map (\<lambda>k. sum_list (take (Suc k) xs)) [0..<length xs]"

definition get_pmi_matrix_from_outputs :: "(int \<Rightarrow> 'v::{zero,plus,minus}) list \<Rightarrow> nat list list \<Rightarrow> int list \<Rightarrow> error + 'v list list" where
  "get_pmi_matrix_from_outputs outputs indices sentence_as_ids =
     (let lengths = map length indices;
          cumsum = 0 # np_cumsum lengths;
          pad = map (\<lambda>c. length indices * 2 * c) cumsum
      in sequence_res (map (\<lambda>i. sequence_res (map (\<lambda>j.
             let start = pad ! i + j * 2 * length (indices ! i);
                 stop = start + 2 * length (indices ! i);
                 span = py_slice start stop outputs
             in get_pmi_from_outputs span (indices ! i) sentence_as_ids)
           [0..<length indices])) [0..<length indices]))"

definition ptb_tokenlist_to_pmi_matrix :: "('v::{zero,plus,minus}) batch_model \<Rightarrow> ('tok \<Rightarrow> int) \<Rightarrow> nat \<Rightarrow> 'tok list list \<Rightarrow> error + 'v list list" where
  "ptb_tokenlist_to_pmi_matrix model convert_tokens_to_ids BATCH_SIZE subwords_nested =
     (case sequence_res (map (\<lambda>i. word_index_to_subword_indices (int i) subwords_nested)
             [0..<length (py_slice_to subwords_nested (- 2))]) of
        Inl e \<Rightarrow> Inl e
      | Inr indices \<Rightarrow>
          let flattened_sentence = concat subwords_nested;
              sentence_as_ids = map convert_tokens_to_ids flattened_sentence
          in case make_mask_and_mapping indices of
               Inl e \<Rightarrow> Inl e
             | Inr (perm_mask, target_mapping) \<Rightarrow>
                 (case make_chunks (length perm_mask) BATCH_SIZE of
                    Inl e \<Rightarrow> Inl e
                  | Inr index_tuples \<Rightarrow>
                      let list_of_output_tensors = map (\<lambda>(a, b).
                            let input_ids = replicate (b - a) sentence_as_ids
                            in model input_ids
                                 (py_slice a b perm_mask) (py_slice a b target_mapping)) index_tuples
                      in if list_of_output_tensors = [] then Inl RuntimeError
                         else get_pmi_matrix_from_outputs (concat list_of_output_tensors)
                                indices sentence_as_ids))"


lemma sequence_res_Inr: "sequence_res (map (\<lambda>x. Inr (f x)) xs) = Inr (map f xs)"
  by (induction xs) simp_all

lemma sequence_res_cong_Inr:
  "(\<forall>x \<in> set xs. g x = Inr (f x)) \<Longrightarrow> sequence_res (map g xs) = Inr (map f xs)"
  by (induction xs) simp_all

lemma slices_prefix:
  "d * n \<le> length xs \<Longrightarrow>
   concat (map (\<lambda>i. py_slice (n * i) (n * (i + 1)) xs) [0..<d]) = take (d * n) xs"
proof (induction d)
  case 0
  show ?case by simp
next
  case (Suc d)
  then have IH: "concat (map (\<lambda>i. py_slice (n * i) (n * (i + 1)) xs) [0..<d]) = take (d * n) xs"
    by simp
  have "py_slice (n * d) (n * (d + 1)) xs = take n (drop (d * n) xs)"
    by (simp add: py_slice_def mult.commute)
  with IH have "concat (map (\<lambda>i. py_slice (n * i) (n * (i + 1)) xs) [0..<Suc d]) =
                  take (d * n) xs @ take n (drop (d * n) xs)" by simp
  also have "\<dots> = take (d * n + n) xs" by (simp add: take_add)
  finally show ?case by (simp add: add.commute)
qed

lemma make_chunks_concat:
  assumes "0 < n"
  shows "\<exists>cs. make_chunks (length xs) n = Inr cs \<and>
               concat (map (\<lambda>(a, b). py_slice a b xs) cs) = xs \<and> (cs = [] \<longleftrightarrow> xs = [])"
proof -
  let ?m = "length xs"
  let ?d = "?m div n"
  let ?r = "?m mod n"
  let ?chunked = "map (\<lambda>i. (n * i, n * (i + 1))) [0..<?d]"
  let ?cs = "if ?r \<noteq> 0 then ?chunked @ [(?d * n, ?d * n + ?r)] else ?chunked"
  have mk: "make_chunks ?m n = Inr ?cs" using assms by (simp add: make_chunks_def Let_def)
  have dn: "?d * n \<le> ?m" by simp
  have pre: "concat (map (\<lambda>(a, b). py_slice a b xs) ?chunked) = take (?d * n) xs"
    using slices_prefix[OF dn] by (simp add: comp_def)
  have whole: "?d * n + ?r = ?m" by simp
  have cc: "concat (map (\<lambda>(a, b). py_slice a b xs) ?cs) = xs"
  proof (cases "?r = 0")
    case True
    with whole have "?d * n = ?m" by simp
    with pre True show ?thesis by simp
  next
    case False
    have "concat (map (\<lambda>(a, b). py_slice a b xs) (?chunked @ [(?d * n, ?d * n + ?r)])) =
            concat (map (\<lambda>(a, b). py_slice a b xs) ?chunked) @ py_slice (?d * n) (?d * n + ?r) xs"
      by simp
    also have "\<dots> = take (?d * n) xs @ take ?r (drop (?d * n) xs)"
      unfolding pre by (simp only: py_slice_def diff_add_inverse)
    finally have "concat (map (\<lambda>(a, b). py_slice a b xs) ?cs) =
            take (?d * n) xs @ take ?r (drop (?d * n) xs)"
      using False by simp
    also have "\<dots> = take (?d * n + ?r) xs" by (rule take_add[symmetric])
    also have "\<dots> = xs" using whole by simp
    finally show ?thesis .
  qed
  have em: "?cs = [] \<longleftrightarrow> xs = []"
  proof
    assume "?cs = []"
    then have "?r = 0" "?d = 0" by (auto split: if_splits)
    with whole show "xs = []" by simp
  next
    assume "xs = []"
    then show "?cs = []" by simp
  qed
  from mk cc em show ?thesis by blast
qed

lemma model_batch_slice:
  "model_batch model ids (py_slice a b pm) (py_slice a b tm) = py_slice a b (model_batch model ids pm tm)"
  by (simp add: model_batch_def py_slice_def take_map drop_map take_zip drop_zip)

lemma model_batch_concat:
  assumes "\<forall>(p, t) \<in> set ps. length p = length t"
  shows "model_batch model ids (concat (map fst ps)) (concat (map snd ps)) =
           concat (map (\<lambda>(p, t). model_batch model ids p t) ps)"
  using assms
proof (induction ps)
  case Nil
  show ?case by (simp add: model_batch_def)
next
  case (Cons pt ps)
  obtain p t where pt: "pt = (p, t)" by (cases pt)
  with Cons.prems have len: "length p = length t" by simp
  from Cons have IH: "model_batch model ids (concat (map fst ps)) (concat (map snd ps)) =
           concat (map (\<lambda>(p, t). model_batch model ids p t) ps)" by simp
  show ?case using len IH pt by (simp add: model_batch_def)
qed

lemma concat_nth_slice:
  assumes "k < length xss"
  shows "py_slice (length (concat (take k xss))) (length (concat (take k xss)) + length (xss ! k)) (concat xss)
           = xss ! k"
proof -
  have "xss = take k xss @ xss ! k # drop (Suc k) xss" using assms by (rule id_take_nth_drop)
  then have "concat xss = concat (take k xss) @ xss ! k @ concat (drop (Suc k) xss)"
    by (metis concat.simps(2) concat_append)
  then show ?thesis by (simp add: py_slice_def)
qed

lemma concat_drop_prefix:
  assumes "k < length xss"
  shows "drop (length (concat (take k xss))) (concat xss) = xss ! k @ concat (drop (Suc k) xss)"
proof -
  have "xss = take k xss @ xss ! k # drop (Suc k) xss" using assms by (rule id_take_nth_drop)
  then have "concat xss = concat (take k xss) @ xss ! k @ concat (drop (Suc k) xss)"
    by (metis concat.simps(2) concat_append)
  then show ?thesis by simp
qed

lemma nested_block_slice:
  assumes "i < length rows" "j < length (rows ! i)"
  shows "py_slice (length (concat (map concat (take i rows))) + length (concat (take j (rows ! i))))
           (length (concat (map concat (take i rows))) + length (concat (take j (rows ! i))) + length (rows ! i ! j))
           (concat (map concat rows)) = rows ! i ! j"
proof -
  let ?a = "length (concat (map concat (take i rows)))"
  let ?b = "length (concat (take j (rows ! i)))"
  let ?n = "length (rows ! i ! j)"
  let ?R = "concat (rows ! i)"
  have i': "i < length (map concat rows)" using assms(1) by simp
  have "drop ?a (concat (map concat rows)) = ?R @ concat (drop (Suc i) (map concat rows))"
    using concat_drop_prefix[OF i'] assms(1) by (simp add: take_map)
  then have "py_slice (?a + ?b) (?a + ?b + ?n) (concat (map concat rows)) =
               take ?n (drop ?b (?R @ concat (drop (Suc i) (map concat rows))))"
    by (simp add: py_slice_def add.commute[of ?a ?b] drop_drop[symmetric] del: drop_drop)
  also have "\<dots> = take ?n (drop ?b ?R)"
  proof -
    have "?R = concat (take j (rows ! i)) @ rows ! i ! j @ concat (drop (Suc j) (rows ! i))"
      using id_take_nth_drop[OF assms(2)] by (metis concat.simps(2) concat_append)
    then have "?b + ?n \<le> length ?R" by (metis length_append le_add1 add.assoc)
    then show ?thesis by simp
  qed
  also have "\<dots> = rows ! i ! j" using concat_nth_slice[OF assms(2)] by (simp add: py_slice_def)
  finally show ?thesis .
qed

subsection \<open>The batched outputs, block by block\<close>

text \<open>
  The definitions of this subsection are not functions of the program. They name what the
  program computes on a sentence \<open>word_tokens @ [[sep], [cls]]\<close>: the sub-token span of word
  \<open>i\<close>, the planner's two tensors for the pair \<open>(i, j)\<close>, the model outputs on that pair, and
  the value \<open>get_pmi_from_outputs\<close> reduces them to.
\<close>


definition span_of :: "'tok list list \<Rightarrow> nat \<Rightarrow> nat list" where
  "span_of word_tokens i =
     [length (concat (take i word_tokens)) ..<
      length (concat (take i word_tokens)) + length (word_tokens ! i)]"

definition pair_plan :: "'tok list list \<Rightarrow> nat \<Rightarrow> nat \<Rightarrow> tensor \<times> tensor" where
  "pair_plan word_tokens i j =
     projr (make_mask_and_mapping_single_pair (span_of word_tokens i) (span_of word_tokens j)
              (length (concat word_tokens) + 2))"

definition pair_block :: "'v predictor \<Rightarrow> int list \<Rightarrow> 'tok list list \<Rightarrow> nat \<Rightarrow> nat \<Rightarrow> (int \<Rightarrow> 'v) list" where
  "pair_block model ids word_tokens i j =
     model_batch model ids (fst (pair_plan word_tokens i j)) (snd (pair_plan word_tokens i j))"

lemma concat_concat_map: "concat (concat xsss) = concat (map concat xsss)"
  by (induction xsss) simp_all

lemma span_bound:
  assumes "i < length wt"
  shows "length (concat (take i wt)) + length (wt ! i) \<le> length (concat wt)"
proof -
  have "wt = take i wt @ wt ! i # drop (Suc i) wt" using assms by (rule id_take_nth_drop)
  then have "concat wt = concat (take i wt) @ wt ! i @ concat (drop (Suc i) wt)"
    by (metis concat.simps(2) concat_append)
  then have "length (concat wt) =
      length (concat (take i wt)) + length (wt ! i) + length (concat (drop (Suc i) wt))"
    by (metis length_append add.assoc)
  then show ?thesis by simp
qed

lemma length_span_of [simp]: "length (span_of wt i) = length (wt ! i)"
  by (simp add: span_of_def)

lemma span_of_lt: "i < length wt \<Longrightarrow> c \<in> set (span_of wt i) \<Longrightarrow> c < length (concat wt)"
  using span_bound[of i wt] by (simp add: span_of_def)

lemma word_index_span:
  assumes "i < length wt"
  shows "word_index_to_subword_indices (int i) (wt @ [[sep], [cls]]) = Inr (span_of wt i)"
proof -
  from assms have "i < length (wt @ [[sep], [cls]])" by simp
  from word_index_in_range[OF this] assms show ?thesis
    by (simp add: span_of_def nth_append)
qed

lemma indices_spans:
  "sequence_res (map (\<lambda>i. word_index_to_subword_indices (int i) (wt @ [[sep], [cls]]))
       [0..<length (py_slice_to (wt @ [[sep], [cls]]) (- 2))]) =
     Inr (map (span_of wt) [0..<length wt])"
proof -
  have "length (py_slice_to (wt @ [[sep], [cls]]) (- 2)) = length wt"
    by (simp add: py_slice_to_def)
  moreover have "sequence_res (map (\<lambda>i. word_index_to_subword_indices (int i) (wt @ [[sep], [cls]]))
       [0..<length wt]) = Inr (map (span_of wt) [0..<length wt])"
    by (rule sequence_res_cong_Inr) (simp add: word_index_span)
  ultimately show ?thesis by simp
qed

lemma length_concat_spans:
  "length (concat (map (span_of wt) [0..<length wt])) = length (concat wt)"
proof -
  have "map length (map (span_of wt) [0..<length wt]) = map (\<lambda>i. length (wt ! i)) [0..<length wt]"
    by simp
  also have "\<dots> = map length (map ((!) wt) [0..<length wt])" by simp
  also have "\<dots> = map length wt" by (simp only: map_nth)
  finally show ?thesis by (simp only: length_concat)
qed

lemma pair_plan_ok:
  assumes "i < length wt" "j < length wt"
  shows "make_mask_and_mapping_single_pair (span_of wt i) (span_of wt j) (length (concat wt) + 2) =
           Inr (pair_plan wt i j) \<and>
         length (fst (pair_plan wt i j)) = 2 * length (wt ! i) \<and>
         length (snd (pair_plan wt i j)) = 2 * length (wt ! i)"
proof -
  let ?s = "length (concat wt) + 2"
  have a: "length (concat (take i wt)) + length (wt ! i) \<le> ?s"
    using span_bound[OF assms(1)] by simp
  have b: "\<forall>c \<in> set (span_of wt j). c < ?s"
    using span_of_lt[OF assms(2)] by fastforce
  from single_pair_char[OF a b]
  obtain pm tm where mk: "make_mask_and_mapping_single_pair (span_of wt i) (span_of wt j) ?s = Inr (pm, tm)"
    and sh: "shape pm (2 * length (wt ! i)) ?s ?s" "shape tm (2 * length (wt ! i)) 1 ?s"
    unfolding span_of_def by (elim exE conjE)
  from mk have "pair_plan wt i j = (pm, tm)" by (simp add: pair_plan_def)
  with mk sh[THEN shape_length] show ?thesis by simp
qed


definition all_pairs :: "'tok list list \<Rightarrow> (tensor \<times> tensor) list" where
  "all_pairs wt =
     concat (map (\<lambda>i. map (\<lambda>j. pair_plan wt i j) [0..<length wt]) [0..<length wt])"

definition block_rows :: "'v predictor \<Rightarrow> int list \<Rightarrow> 'tok list list \<Rightarrow> (int \<Rightarrow> 'v) list list list" where
  "block_rows model ids wt =
     map (\<lambda>i. map (\<lambda>j. pair_block model ids wt i j) [0..<length wt]) [0..<length wt]"

lemma all_pairs_nonempty: "0 < length wt \<Longrightarrow> all_pairs wt \<noteq> []"
  by (cases wt) (simp_all add: all_pairs_def upt_rec)

lemma all_pairs_lengths:
  assumes "pt \<in> set (all_pairs wt)"
  shows "length (fst pt) = length (snd pt)"
proof -
  from assms obtain i j where "i < length wt" "j < length wt" "pt = pair_plan wt i j"
    by (auto simp: all_pairs_def)
  with pair_plan_ok[of i wt j] show ?thesis by simp
qed

lemma make_mask_and_mapping_spans:
  assumes "0 < length wt"
  shows "make_mask_and_mapping (map (span_of wt) [0..<length wt]) =
           Inr (concat (map fst (all_pairs wt)), concat (map snd (all_pairs wt)))"
proof -
  let ?V = "length wt"
  let ?idx = "map (span_of wt) [0..<?V]"
  let ?s = "length (concat wt) + 2"
  have row: "map (\<lambda>j. make_mask_and_mapping_single_pair (?idx ! i) (?idx ! j) ?s) [0..<?V] =
             map (\<lambda>j. Inr (pair_plan wt i j)) [0..<?V]" if "i < ?V" for i
  proof (rule map_cong[OF refl])
    fix j assume "j \<in> set [0..<?V]"
    then have j: "j < ?V" by simp
    from pair_plan_ok[OF that j] that j
    show "make_mask_and_mapping_single_pair (?idx ! i) (?idx ! j) ?s = Inr (pair_plan wt i j)"
      by simp
  qed
  have eq: "map (\<lambda>i. map (\<lambda>j. make_mask_and_mapping_single_pair (?idx ! i) (?idx ! j) ?s) [0..<?V]) [0..<?V] =
        map (\<lambda>i. map (\<lambda>j. Inr (pair_plan wt i j)) [0..<?V]) [0..<?V]"
    by (rule map_cong[OF refl]) (simp only: row set_upt atLeastLessThan_iff)
  have "concat (map (\<lambda>i. map (\<lambda>j. make_mask_and_mapping_single_pair (?idx ! i) (?idx ! j) ?s)
                 [0..<?V]) [0..<?V]) =
        concat (map (\<lambda>i. map (\<lambda>j. Inr (pair_plan wt i j)) [0..<?V]) [0..<?V])"
    by (simp only: eq)
  also have "\<dots> = map (\<lambda>x. Inr (id x)) (all_pairs wt)"
    by (simp add: all_pairs_def map_concat comp_def)
  finally have "concat (map (\<lambda>i. map (\<lambda>j. make_mask_and_mapping_single_pair (?idx ! i) (?idx ! j) ?s)
                 [0..<?V]) [0..<?V]) = map (\<lambda>x. Inr (id x)) (all_pairs wt)" .
  then have "sequence_res (concat (map (\<lambda>i. map (\<lambda>j.
                make_mask_and_mapping_single_pair (?idx ! i) (?idx ! j) ?s) [0..<?V]) [0..<?V])) =
             Inr (all_pairs wt)"
    by (simp only: sequence_res_Inr map_ident id_def)
  with all_pairs_nonempty[OF assms] show ?thesis
    by (simp add: make_mask_and_mapping_def length_concat_spans Let_def)
qed

lemma model_batch_all_pairs:
  "model_batch model ids (concat (map fst (all_pairs wt))) (concat (map snd (all_pairs wt))) =
     concat (map concat (block_rows model ids wt))"
proof -
  have "\<forall>(p, t) \<in> set (all_pairs wt). length p = length t"
    using all_pairs_lengths by fastforce
  then have "model_batch model ids (concat (map fst (all_pairs wt))) (concat (map snd (all_pairs wt))) =
               concat (map (\<lambda>(p, t). model_batch model ids p t) (all_pairs wt))"
    by (rule model_batch_concat)
  also have "map (\<lambda>(p, t). model_batch model ids p t) (all_pairs wt) = concat (block_rows model ids wt)"
    by (simp add: all_pairs_def block_rows_def pair_block_def map_concat comp_def case_prod_beta)
  finally show ?thesis by (simp only: concat_concat_map)
qed


lemma block_rows_nth:
  "i < length wt \<Longrightarrow> j < length wt \<Longrightarrow> block_rows model ids wt ! i ! j = pair_block model ids wt i j"
  by (simp add: block_rows_def)

lemma length_block_rows [simp]: "length (block_rows model ids wt) = length wt"
  by (simp add: block_rows_def)

lemma length_block_row: "i < length wt \<Longrightarrow> length (block_rows model ids wt ! i) = length wt"
  by (simp add: block_rows_def)

lemma length_pair_block:
  "i < length wt \<Longrightarrow> j < length wt \<Longrightarrow> length (pair_block model ids wt i j) = 2 * length (wt ! i)"
  using pair_plan_ok[of i wt j] by (simp add: pair_block_def length_model_batch)

lemma inner_offset:
  assumes "i < length wt" "j \<le> length wt"
  shows "length (concat (take j (block_rows model ids wt ! i))) = j * 2 * length (wt ! i)"
proof -
  have "take j (block_rows model ids wt ! i) = map (\<lambda>j. pair_block model ids wt i j) [0..<j]"
    using assms by (simp add: block_rows_def take_map)
  moreover have "map length (map (\<lambda>j. pair_block model ids wt i j) [0..<j]) =
                 map (\<lambda>j. 2 * length (wt ! i)) [0..<j]"
    using assms by (simp add: length_pair_block)
  ultimately have "length (concat (take j (block_rows model ids wt ! i))) =
                     sum_list (map (\<lambda>j. 2 * length (wt ! i)) [0..<j])"
    by (simp only: length_concat)
  then show ?thesis by (simp add: sum_list_triv)
qed

lemma outer_offset:
  assumes "i \<le> length wt"
  shows "length (concat (map concat (take i (block_rows model ids wt)))) =
           length wt * 2 * sum_list (take i (map length wt))"
  using assms
proof (induction i)
  case 0
  show ?case by simp
next
  case (Suc i)
  then have i: "i < length wt" by simp
  let ?rows = "block_rows model ids wt"
  have "take (Suc i) ?rows = take i ?rows @ [?rows ! i]"
    using i by (simp add: take_Suc_conv_app_nth)
  then have "length (concat (map concat (take (Suc i) ?rows))) =
               length (concat (map concat (take i ?rows))) + length (concat (?rows ! i))"
    by simp
  also have "length (concat (?rows ! i)) = length wt * 2 * length (wt ! i)"
    using inner_offset[OF i le_refl, of model ids] length_block_row[OF i, of model ids] by simp
  also have "length (concat (map concat (take i ?rows))) = length wt * 2 * sum_list (take i (map length wt))"
    using Suc by simp
  finally show ?case using i by (simp add: take_Suc_conv_app_nth algebra_simps)
qed

lemma cumsum_nth:
  "i \<le> length ls \<Longrightarrow> (0 # np_cumsum ls) ! i = sum_list (take i ls)"
  by (cases i) (simp_all add: np_cumsum_def)

lemma lengths_spans: "map length (map (span_of wt) [0..<length wt]) = map length wt"
proof -
  have "map length (map (span_of wt) [0..<length wt]) = map (\<lambda>i. length (wt ! i)) [0..<length wt]"
    by simp
  also have "\<dots> = map length (map ((!) wt) [0..<length wt])" by simp
  also have "\<dots> = map length wt" by (simp only: map_nth)
  finally show ?thesis .
qed

lemma block_at_offset:
  assumes "i < length wt" "j < length wt"
  shows "py_slice (length wt * 2 * sum_list (take i (map length wt)) + j * 2 * length (wt ! i))
           (length wt * 2 * sum_list (take i (map length wt)) + j * 2 * length (wt ! i) + 2 * length (wt ! i))
           (concat (map concat (block_rows model ids wt))) = pair_block model ids wt i j"
proof -
  let ?rows = "block_rows model ids wt"
  have i': "i < length ?rows" using assms by simp
  have j': "j < length (?rows ! i)" using assms by (simp add: length_block_row)
  from nested_block_slice[OF i' j']
  show ?thesis
    using outer_offset[of i wt model ids] inner_offset[of i wt j model ids] assms
    by (simp add: block_rows_nth length_pair_block)
qed


definition pair_value :: "('v::{zero,plus,minus}) predictor \<Rightarrow> int list \<Rightarrow> 'tok list list \<Rightarrow> nat \<Rightarrow> nat \<Rightarrow> error + 'v" where
  "pair_value model ids wt i j =
     get_pmi_from_outputs (pair_block model ids wt i j) (span_of wt i) ids"

lemma pair_value_Inr:
  assumes "i < length wt" "j < length wt" "wt ! i \<noteq> []" "length ids = length (concat wt) + 2"
  shows "pair_value model ids wt i j = Inr (projr (pair_value model ids wt i j))"
proof -
  have 1: "0 < length (span_of wt i)" using assms(3) by simp
  have 2: "length (pair_block model ids wt i j) = 2 * length (span_of wt i)"
    using assms(1,2) by (simp add: length_pair_block)
  have 3: "\<forall>x \<in> set (span_of wt i). x < length ids"
    using span_of_lt[OF assms(1)] assms(4) by fastforce
  from get_pmi_from_outputs_eq[OF 1 2 3] show ?thesis by (simp add: pair_value_def)
qed

lemma matrix_entry:
  assumes "i < length wt" "j < length wt"
  shows "get_pmi_from_outputs
           (py_slice
              (map (\<lambda>c. length (map (span_of wt) [0..<length wt]) * 2 * c)
                 (0 # np_cumsum (map length (map (span_of wt) [0..<length wt]))) ! i +
               j * 2 * length (map (span_of wt) [0..<length wt] ! i))
              (map (\<lambda>c. length (map (span_of wt) [0..<length wt]) * 2 * c)
                 (0 # np_cumsum (map length (map (span_of wt) [0..<length wt]))) ! i +
               j * 2 * length (map (span_of wt) [0..<length wt] ! i) +
               2 * length (map (span_of wt) [0..<length wt] ! i))
              (concat (map concat (block_rows model ids wt))))
           (map (span_of wt) [0..<length wt] ! i) ids = pair_value model ids wt i j"
proof -
  let ?V = "length wt"
  let ?idx = "map (span_of wt) [0..<?V]"
  have idx_i: "?idx ! i = span_of wt i" using assms(1) by simp
  have len: "length ?idx = ?V" by simp
  have "i < length (0 # np_cumsum (map length wt))" using assms(1) by (simp add: np_cumsum_def)
  then have "map (\<lambda>c. ?V * 2 * c) (0 # np_cumsum (map length wt)) ! i =
               ?V * 2 * ((0 # np_cumsum (map length wt)) ! i)"
    by (rule nth_map)
  also have "(0 # np_cumsum (map length wt)) ! i = sum_list (take i (map length wt))"
    using assms(1) by (intro cumsum_nth) simp
  finally have pad_i: "map (\<lambda>c. ?V * 2 * c) (0 # np_cumsum (map length wt)) ! i =
      ?V * 2 * sum_list (take i (map length wt))" .
  show ?thesis
    unfolding len lengths_spans idx_i length_span_of pad_i block_at_offset[OF assms] pair_value_def ..
qed

lemma get_pmi_matrix_from_outputs_blocks:
  assumes "\<forall>w \<in> set wt. w \<noteq> []" "length ids = length (concat wt) + 2"
  shows "get_pmi_matrix_from_outputs (concat (map concat (block_rows model ids wt)))
           (map (span_of wt) [0..<length wt]) ids =
         Inr (map (\<lambda>i. map (\<lambda>j. projr (pair_value model ids wt i j)) [0..<length wt]) [0..<length wt])"
proof -
  let ?V = "length wt"
  let ?idx = "map (span_of wt) [0..<?V]"
  let ?outs = "concat (map concat (block_rows model ids wt))"
  let ?pad = "map (\<lambda>c. length ?idx * 2 * c) (0 # np_cumsum (map length ?idx))"
  let ?cell = "\<lambda>i j. get_pmi_from_outputs
           (py_slice (?pad ! i + j * 2 * length (?idx ! i))
              (?pad ! i + j * 2 * length (?idx ! i) + 2 * length (?idx ! i)) ?outs)
           (?idx ! i) ids"
  have cell: "?cell i j = Inr (projr (pair_value model ids wt i j))" if "i < ?V" "j < ?V" for i j
  proof -
    from that assms(1) have "wt ! i \<noteq> []" by simp
    from pair_value_Inr[OF that this assms(2), of model] matrix_entry[OF that, of model ids]
    show ?thesis by (simp only:)
  qed
  have row: "sequence_res (map (?cell i) [0..<?V]) =
               Inr (map (\<lambda>j. projr (pair_value model ids wt i j)) [0..<?V])" if "i < ?V" for i
  proof (rule sequence_res_cong_Inr, rule ballI)
    fix j assume "j \<in> set [0..<?V]"
    then have "j < ?V" by simp
    then show "?cell i j = Inr (projr (pair_value model ids wt i j))" by (rule cell[OF that])
  qed
  have "sequence_res (map (\<lambda>i. sequence_res (map (?cell i) [0..<?V])) [0..<?V]) =
          Inr (map (\<lambda>i. map (\<lambda>j. projr (pair_value model ids wt i j)) [0..<?V]) [0..<?V])"
  proof (rule sequence_res_cong_Inr, rule ballI)
    fix i assume "i \<in> set [0..<?V]"
    then have "i < ?V" by simp
    then show "sequence_res (map (?cell i) [0..<?V]) =
                 Inr (map (\<lambda>j. projr (pair_value model ids wt i j)) [0..<?V])" by (rule row)
  qed
  then show ?thesis
    unfolding get_pmi_matrix_from_outputs_def Let_def length_map length_upt diff_zero .
qed


lemma all_pairs_total_lengths:
  "length (concat (map snd (all_pairs wt))) = length (concat (map fst (all_pairs wt)))"
proof -
  have "map length (map snd (all_pairs wt)) = map length (map fst (all_pairs wt))"
    using all_pairs_lengths[of _ wt] by (simp add: comp_def)
  then show ?thesis by (simp only: length_concat)
qed

lemma sum_list_lengths_pos:
  assumes "\<forall>w \<in> set wt. w \<noteq> []" "0 < length wt"
  shows "0 < sum_list (map length wt)"
proof -
  from assms(2) obtain w ws where wt: "wt = w # ws" by (cases wt) auto
  with assms(1) have "w \<noteq> []" by simp
  with wt show ?thesis by simp
qed

lemma batched_matrix:
  assumes "\<forall>w \<in> set wt. w \<noteq> []" "0 < length wt" "0 < BATCH_SIZE"
  shows "ptb_tokenlist_to_pmi_matrix (rowwise model) conv BATCH_SIZE (wt @ [[sep], [cls]]) =
           Inr (map (\<lambda>i. map (\<lambda>j.
                  projr (pair_value model (map conv (concat (wt @ [[sep], [cls]]))) wt i j))
                [0..<length wt]) [0..<length wt])"
proof -
  let ?nested = "wt @ [[sep], [cls]]"
  let ?ids = "map conv (concat ?nested)"
  let ?idx = "map (span_of wt) [0..<length wt]"
  let ?pm = "concat (map fst (all_pairs wt))"
  let ?tm = "concat (map snd (all_pairs wt))"
  let ?outs = "model_batch model ?ids ?pm ?tm"
  have lids: "length ?ids = length (concat wt) + 2" by simp
  have louts: "length ?outs = length ?pm"
    by (simp add: length_model_batch all_pairs_total_lengths)
  have outs: "?outs = concat (map concat (block_rows model ?ids wt))"
    by (rule model_batch_all_pairs)
  have "length ?outs = length wt * 2 * sum_list (take (length wt) (map length wt))"
    unfolding outs using outer_offset[of "length wt" wt model ?ids] by simp
  then have "length ?outs = length wt * 2 * sum_list (map length wt)" by simp
  moreover have "0 < length wt * 2 * sum_list (map length wt)"
    using sum_list_lengths_pos[OF assms(1,2)] assms(2) by simp
  ultimately have "0 < length ?outs" by (simp only:)
  then have ne: "?outs \<noteq> []" by fastforce
  from make_chunks_concat[OF assms(3), of ?outs]
  obtain cs where cs: "make_chunks (length ?outs) BATCH_SIZE = Inr cs"
    and cc: "concat (map (\<lambda>(a, b). py_slice a b ?outs) cs) = ?outs"
    and ce: "cs = [] \<longleftrightarrow> ?outs = []"
    by blast
  have chunk: "rowwise model (replicate (b - a) ?ids) (py_slice a b ?pm) (py_slice a b ?tm) =
                 py_slice a b ?outs" for a b
  proof -
    have "length (py_slice a b ?pm) \<le> b - a" by (simp add: py_slice_def)
    then have "rowwise model (replicate (b - a) ?ids) (py_slice a b ?pm) (py_slice a b ?tm) =
                 model_batch model ?ids (py_slice a b ?pm) (py_slice a b ?tm)"
      by (rule rowwise_replicate)
    then show ?thesis by (simp only: model_batch_slice)
  qed
  have mat: "get_pmi_matrix_from_outputs ?outs ?idx ?ids =
           Inr (map (\<lambda>i. map (\<lambda>j. projr (pair_value model ?ids wt i j)) [0..<length wt]) [0..<length wt])"
    unfolding outs by (rule get_pmi_matrix_from_outputs_blocks[OF assms(1) lids])
  have chunks: "make_chunks (length ?pm) BATCH_SIZE = Inr cs" using cs louts by simp
  have cne: "cs \<noteq> []" using ce ne by simp
  have lot': "map (\<lambda>(a, b). rowwise model (replicate (b - a) ?ids)
                             (py_slice a b ?pm) (py_slice a b ?tm)) cs =
              map (\<lambda>(a, b). py_slice a b ?outs) cs"
    by (rule map_cong[OF refl], clarify, simp only: prod.case chunk)
  show ?thesis
    unfolding ptb_tokenlist_to_pmi_matrix_def indices_spans make_mask_and_mapping_spans[OF assms(2)]
      Let_def sum.case prod.case chunks lot' cc
    using cne mat by simp
qed

lemma single_pair_value:
  assumes "i < length wt" "j < length wt"
  shows "get_pmi_between_PTBwords (rowwise model) conv i j (wt @ [[sep], [cls]]) =
           pair_value model (map conv (concat (wt @ [[sep], [cls]]))) wt i j"
proof -
  let ?ids = "map conv (concat (wt @ [[sep], [cls]]))"
  have lids: "length ?ids = length (concat wt) + 2" by simp
  from pair_plan_ok[OF assms]
  have mk: "make_mask_and_mapping_single_pair (span_of wt i) (span_of wt j) (length ?ids) =
              Inr (fst (pair_plan wt i j), snd (pair_plan wt i j))"
    and len: "length (fst (pair_plan wt i j)) \<le> 2 * length (span_of wt i)"
    unfolding lids by simp_all
  show ?thesis
    unfolding get_pmi_between_PTBwords_def word_index_span[OF assms(1)] word_index_span[OF assms(2)]
      Let_def sum.case pmi_between_spans_rowwise[OF mk len] pair_value_def pair_block_def ..
qed

text \<open>
  C1 (as amended). Let the model answer every row of a call from that row alone: there is a
  function \<open>row\<close> such that, whatever the input ids, the permutation mask and the target mapping
  of a call are, the answer is the list of \<open>row ids pm tm\<close> over the rows of the call. Take a
  sentence whose words all have at least one sub-token, as \<open>make_subword_lists\<close> returns them,
  followed by the two sentinel sub-token lists, and a positive batch size. For every two
  different word positions \<open>i\<close> and \<open>j\<close> both strategies return, and the entry \<open>[i][j]\<close> of the
  matrix that the whole-sentence batched strategy reads back from its concatenated, chunked
  model outputs is the value the single-pair strategy computes for the pair from its own batch,
  which is what the word-pair loop stores at \<open>[i][j]\<close>. The result holds for any type of
  log-probabilities with a zero, an addition and a subtraction, so it does not depend on how
  the floating-point sums round.
\<close>

theorem rowwise_batched_entry_is_single_pair_value:
  fixes model :: "('v::{zero,plus,minus}) batch_model" and row :: "'v predictor"
  assumes "\<forall>input_ids perm_mask target_mapping.
             model input_ids perm_mask target_mapping =
               map (\<lambda>(ids, pm, tm). row ids pm tm) (zip input_ids (zip perm_mask target_mapping))"
    and "\<forall>w \<in> set word_tokens. w \<noteq> []" "0 < BATCH_SIZE"
    and "i < length word_tokens" "j < length word_tokens" "i \<noteq> j"
  shows "\<exists>pmis p.
           ptb_tokenlist_to_pmi_matrix model convert_tokens_to_ids BATCH_SIZE
             (word_tokens @ [[sep], [cls]]) = Inr pmis \<and>
           get_pmi_between_PTBwords model convert_tokens_to_ids i j
             (word_tokens @ [[sep], [cls]]) = Inr p \<and>
           pmis ! i ! j = p"
proof -
  let ?ids = "map convert_tokens_to_ids (concat (word_tokens @ [[sep], [cls]]))"
  let ?V = "length word_tokens"
  let ?pmis = "map (\<lambda>i. map (\<lambda>j. projr (pair_value row ?ids word_tokens i j)) [0..<?V]) [0..<?V]"
  have model: "model = rowwise row"
    by (intro ext) (simp add: rowwise_def assms(1))
  from assms(4) have pos: "0 < ?V" by (cases word_tokens) auto
  have b: "ptb_tokenlist_to_pmi_matrix (rowwise row) convert_tokens_to_ids BATCH_SIZE
             (word_tokens @ [[sep], [cls]]) = Inr ?pmis"
    using assms(2) pos assms(3) by (rule batched_matrix)
  have lids: "length ?ids = length (concat word_tokens) + 2" by simp
  from assms(2,4) have ne: "word_tokens ! i \<noteq> []" by simp
  have s: "get_pmi_between_PTBwords (rowwise row) convert_tokens_to_ids i j
             (word_tokens @ [[sep], [cls]]) =
             Inr (projr (pair_value row ?ids word_tokens i j))"
    using single_pair_value[OF assms(4,5), of row convert_tokens_to_ids sep cls]
      pair_value_Inr[OF assms(4,5) ne lids, of row] by simp
  have "?pmis ! i ! j = projr (pair_value row ?ids word_tokens i j)"
    using assms(4,5) by simp
  with b s show ?thesis unfolding model by blast
qed

theorem rowwise_batched_entry_is_single_pair_value_witness:
  "ptb_tokenlist_to_pmi_matrix
     (rowwise (\<lambda>ids pm tm v. Num (Fin (- sum_list (pm ! 0) + real_of_int v * sum_list (tm ! 0)))))
     (\<lambda>t. int (length t)) 3 [[''ab'', ''c''], [''def''], [''<sep>''], [''<cls>'']] =
     Inr [[Num (Fin 1), Num (Fin 2)], [Num (Fin 2), Num (Fin 0)]] \<and>
   get_pmi_between_PTBwords
     (rowwise (\<lambda>ids pm tm v. Num (Fin (- sum_list (pm ! 0) + real_of_int v * sum_list (tm ! 0)))))
     (\<lambda>t. int (length t)) 0 1 [[''ab'', ''c''], [''def''], [''<sep>''], [''<cls>'']] =
     Inr (Num (Fin 2))"
proof -
  let ?m = "\<lambda>(ids :: int list) (pm :: real list list) (tm :: real list list) (v :: int).
              Num (Fin (- sum_list (pm ! 0) + real_of_int v * sum_list (tm ! 0)))"
  let ?conv = "\<lambda>t :: string. int (length t)"
  let ?nested = "[[''ab'', ''c''], [''def''], [''<sep>''], [''<cls>'']]"
  have rows: "\<forall>input_ids perm_mask target_mapping.
             rowwise ?m input_ids perm_mask target_mapping =
               map (\<lambda>(ids, pm, tm). ?m ids pm tm) (zip input_ids (zip perm_mask target_mapping))"
    by (simp add: rowwise_def)
  have h: "\<forall>w \<in> set [[''ab'', ''c''], [''def'']]. w \<noteq> []" "0 < (3::nat)"
    "(0::nat) < length [[''ab'', ''c''], [''def'']]" "(1::nat) < length [[''ab'', ''c''], [''def'']]"
    "(0::nat) \<noteq> 1"
    by simp_all
  have inst: "\<exists>pmis p. ptb_tokenlist_to_pmi_matrix (rowwise ?m) ?conv 3 ?nested = Inr pmis \<and>
                get_pmi_between_PTBwords (rowwise ?m) ?conv 0 1 ?nested = Inr p \<and> pmis ! 0 ! 1 = p"
    using rowwise_batched_entry_is_single_pair_value[OF rows h,
        of ?conv "''<sep>''" "''<cls>''"]
    by simp
  have e1: "ptb_tokenlist_to_pmi_matrix (rowwise ?m) ?conv 3 ?nested =
              Inr [[Num (Fin 1), Num (Fin 2)], [Num (Fin 2), Num (Fin 0)]]"
    by code_simp
  have e2: "get_pmi_between_PTBwords (rowwise ?m) ?conv 0 1 ?nested = Inr (Num (Fin 2))"
    by code_simp
  from inst e1 e2 show ?thesis by simp
qed

text \<open>
  The claim C1 as it was stated asks of the model only that it is a function of the input ids,
  the permutation mask and the target mapping it is called with. \<open>answers_from_first_row row\<close>
  is such a function, and with it the two strategies differ on the pair \<open>(0, 1)\<close>. The
  single-pair call has four rows, all answered from its first row, so the numerator and the
  denominator sums are equal and the value is 0. With a batch size of 3 the four rows of the
  pair in the batched strategy fall into the chunks \<open>(3, 6)\<close> and \<open>(6, 9)\<close>, whose first rows
  are a row of the pair \<open>(0, 0)\<close> and the first denominator row of the pair, and the entry
  read back is 2.
\<close>

theorem first_row_model_batched_differs_from_single_pair:
  "ptb_tokenlist_to_pmi_matrix
     (answers_from_first_row
        (\<lambda>ids pm tm v. Num (Fin (- sum_list (pm ! 0) + real_of_int v * sum_list (tm ! 0)))))
     (\<lambda>t. int (length t)) 3 [[''ab'', ''c''], [''def''], [''<sep>''], [''<cls>'']] =
     Inr [[Num (Fin 0), Num (Fin 2)], [Num (Fin 0), Num (Fin 0)]] \<and>
   get_pmi_between_PTBwords
     (answers_from_first_row
        (\<lambda>ids pm tm v. Num (Fin (- sum_list (pm ! 0) + real_of_int v * sum_list (tm ! 0)))))
     (\<lambda>t. int (length t)) 0 1 [[''ab'', ''c''], [''def''], [''<sep>''], [''<cls>'']] =
     Inr (Num (Fin 0)) \<and>
   Num (Fin 2) \<noteq> Num (Fin 0)"
proof -
  let ?m = "answers_from_first_row
        (\<lambda>(ids :: int list) (pm :: real list list) (tm :: real list list) (v :: int).
           Num (Fin (- sum_list (pm ! 0) + real_of_int v * sum_list (tm ! 0))))"
  let ?conv = "\<lambda>t :: string. int (length t)"
  let ?nested = "[[''ab'', ''c''], [''def''], [''<sep>''], [''<cls>'']]"
  have e1: "ptb_tokenlist_to_pmi_matrix ?m ?conv 3 ?nested =
              Inr [[Num (Fin 0), Num (Fin 2)], [Num (Fin 0), Num (Fin 0)]]"
    by code_simp
  have e2: "get_pmi_between_PTBwords ?m ?conv 0 1 ?nested = Inr (Num (Fin 0))"
    by code_simp
  from e1 e2 show ?thesis by simp
qed

section \<open>The diagonal\<close>

text \<open>
  Two auxiliary notions for comparing what the extractor does on two matrices: a candidate pair
  is off the diagonal when its endpoints differ, and two weighted candidates are the same off
  the diagonal when they have the same pair and, unless that pair is on the diagonal, the same
  weight.
\<close>


definition off_diagonal :: "nat \<times> nat \<Rightarrow> bool" where
  "off_diagonal c = (fst c \<noteq> snd c)"

definition same_off_diagonal :: "(nat \<times> nat) \<times> pyfloat \<Rightarrow> (nat \<times> nat) \<times> pyfloat \<Rightarrow> bool" where
  "same_off_diagonal a b = (fst a = fst b \<and> (off_diagonal (fst a) \<longrightarrow> snd a = snd b))"

lemma update_same_off_diagonal:
  assumes "list_all2 same_off_diagonal al al'" "off_diagonal k \<longrightarrow> v = v'"
  shows "list_all2 same_off_diagonal (AList.update k v al) (AList.update k v' al')"
  using assms(1)
proof (induction rule: list_all2_induct)
  case Nil
  from assms(2) show ?case by (simp add: same_off_diagonal_def)
next
  case (Cons a al b al')
  from Cons(1) have k: "fst a = fst b" by (simp add: same_off_diagonal_def)
  from assms(2) have head: "same_off_diagonal (k, v) (k, v')" by (simp add: same_off_diagonal_def)
  show ?case
  proof (cases "fst a = k")
    case True
    with k Cons(2) head show ?thesis by simp
  next
    case False
    with k Cons show ?thesis by simp
  qed
qed

lemma pairs_row_same_off_diagonal:
  assumes "list_all2 (\<lambda>a b. fst a = fst b \<and> (i \<noteq> fst a \<longrightarrow> snd a = snd b)) rest rest'"
    and "list_all2 same_off_diagonal acc acc'"
  shows "rel_sum (=) (list_all2 same_off_diagonal)
           (pairs_row ex ws i rest acc) (pairs_row ex ws i rest' acc')"
  using assms
proof (induction arbitrary: acc acc' rule: list_all2_induct)
  case Nil
  then show ?case by simp
next
  case (Cons a rest b rest')
  obtain j d where a: "a = (j, d)" by (cases a)
  obtain j' d' where b: "b = (j', d')" by (cases b)
  from Cons(1) a b have j: "j' = j" and d: "i \<noteq> j \<longrightarrow> d = d'" by simp_all
  have u: "list_all2 same_off_diagonal (AList.update (i, j) d acc) (AList.update (i, j) d' acc')"
    using Cons.prems d by (intro update_same_off_diagonal) (simp_all add: off_diagonal_def)
  show ?case
    unfolding a b j pairs_row.simps
    using Cons.IH[OF Cons.prems] Cons.IH[OF u] by simp
qed

lemma pairs_rows_same_off_diagonal:
  assumes "list_all2 (\<lambda>a b. fst a = fst b \<and>
             list_all2 (\<lambda>c d. fst c = fst d \<and> (fst a \<noteq> fst c \<longrightarrow> snd c = snd d))
               (enumerate 0 (snd a)) (enumerate 0 (snd b))) rows rows'"
    and "list_all2 same_off_diagonal acc acc'"
  shows "rel_sum (=) (list_all2 same_off_diagonal)
           (pairs_rows ex ws rows acc) (pairs_rows ex ws rows' acc')"
  using assms
proof (induction arbitrary: acc acc' rule: list_all2_induct)
  case Nil
  then show ?case by simp
next
  case (Cons a rows b rows')
  obtain i line where a: "a = (i, line)" by (cases a)
  obtain i' line' where b: "b = (i', line')" by (cases b)
  from Cons(1) a b have i: "i' = i"
    and l: "list_all2 (\<lambda>c d. fst c = fst d \<and> (i \<noteq> fst c \<longrightarrow> snd c = snd d))
              (enumerate 0 line) (enumerate 0 line')" by auto
  from pairs_row_same_off_diagonal[OF l Cons.prems, of ex ws]
  have r: "rel_sum (=) (list_all2 same_off_diagonal)
             (pairs_row ex ws i (enumerate 0 line) acc) (pairs_row ex ws i (enumerate 0 line') acc')" .
  show ?case
  proof (cases "pairs_row ex ws i (enumerate 0 line) acc")
    case (Inl e)
    with r have "pairs_row ex ws i (enumerate 0 line') acc' = Inl e"
      by (cases "pairs_row ex ws i (enumerate 0 line') acc'") simp_all
    with Inl show ?thesis unfolding a b i by simp
  next
    case (Inr acc1)
    with r obtain acc1' where r': "pairs_row ex ws i (enumerate 0 line') acc' = Inr acc1'"
      and rel: "list_all2 same_off_diagonal acc1 acc1'"
      by (cases "pairs_row ex ws i (enumerate 0 line') acc'") simp_all
    from Cons.IH[OF rel] Inr r' show ?thesis unfolding a b i by simp
  qed
qed

lemma enumerate_same_off_diagonal:
  assumes "length m = length m'"
    and "\<forall>i<length m. length (m ! i) = length (m' ! i) \<and>
           (\<forall>j<length (m ! i). i \<noteq> j \<longrightarrow> m ! i ! j = m' ! i ! j)"
  shows "list_all2 (\<lambda>a b. fst a = fst b \<and>
             list_all2 (\<lambda>c d. fst c = fst d \<and> (fst a \<noteq> fst c \<longrightarrow> snd c = snd d))
               (enumerate 0 (snd a)) (enumerate 0 (snd b))) (enumerate 0 m) (enumerate 0 m')"
  using assms by (simp add: list_all2_conv_all_nth nth_enumerate_eq)

lemma same_off_diagonal_filter:
  assumes "list_all2 same_off_diagonal al al'"
  shows "filter (\<lambda>x. off_diagonal (fst x)) al = filter (\<lambda>x. off_diagonal (fst x)) al'"
  using assms
  by (induction rule: list_all2_induct) (auto simp: same_off_diagonal_def prod_eq_iff)

lemma py_sorted_filter: "filter P (py_sorted key reverse xs) = py_sorted key reverse (filter P xs)"
proof (cases reverse)
  case True
  have "filter P (rev (sort_key key (rev xs))) = rev (filter P (sort_key key (rev xs)))"
    by (rule rev_filter[symmetric])
  also have "\<dots> = rev (sort_key key (filter P (rev xs)))" by (simp only: filter_sort)
  also have "\<dots> = rev (sort_key key (rev (filter P xs)))" by (simp only: rev_filter)
  finally show ?thesis using True by (simp only: py_sorted_def if_True)
next
  case False
  then show ?thesis by (simp add: py_sorted_def filter_sort)
qed

lemma kruskal_loop_skip_diagonal:
  assumes "uf_inv p" "\<forall>c \<in> set cs. fst c = snd c \<longrightarrow> fst c < length p"
  shows "kruskal_loop cs p es = kruskal_loop (filter off_diagonal cs) p es"
  using assms
proof (induction cs arbitrary: p es)
  case Nil
  show ?case by simp
next
  case (Cons c cs)
  obtain i j where c: "c = (i, j)" by (cases c)
  from Cons.prems(2) have rest: "\<forall>c \<in> set cs. fst c = snd c \<longrightarrow> fst c < length p" by simp
  show ?case
  proof (cases "i = j")
    case True
    with Cons.prems(2) c have "i < length p" by simp
    with Cons.prems(1) obtain r where r: "rooted p i r" using uf_inv_rooted by blast
    have "kruskal_loop (c # cs) p es = kruskal_loop cs p es"
      unfolding c True[symmetric] using kruskal_loop_step[OF r r] by simp
    also have "\<dots> = kruskal_loop (filter off_diagonal cs) p es"
      using Cons.prems(1) rest by (rule Cons.IH)
    finally have "kruskal_loop (c # cs) p es = kruskal_loop (filter off_diagonal cs) p es" .
    moreover have "\<not> off_diagonal c" using c True by (simp add: off_diagonal_def)
    ultimately show ?thesis by simp
  next
    case False
    then have "off_diagonal c" using c by (simp add: off_diagonal_def)
    then have keep: "filter off_diagonal (c # cs) = c # filter off_diagonal cs" by simp
    show ?thesis
    proof (cases "i < length p \<and> j < length p")
      case True
      with Cons.prems(1) obtain ri rj where ri: "rooted p i ri" and rj: "rooted p j rj"
        using uf_inv_rooted[of p i] uf_inv_rooted[of p j] by auto
      show ?thesis
      proof (cases "ri = rj")
        case True
        then show ?thesis
          unfolding keep unfolding c using kruskal_loop_step[OF ri rj] Cons.IH[OF Cons.prems(1) rest] by simp
      next
        case ne: False
        have inv': "uf_inv (p[ri := j])" using Cons.prems(1) ri rj ne by (rule uf_inv_update)
        have rest': "\<forall>c \<in> set cs. fst c = snd c \<longrightarrow> fst c < length (p[ri := j])"
          using rest by simp
        show ?thesis
          unfolding keep unfolding c using kruskal_loop_step[OF ri rj] Cons.IH[OF inv' rest'] ne by simp
      qed
    next
      case False
      show ?thesis
      proof (cases "i < length p")
        case True
        with Cons.prems(1) obtain ri where ri: "rooted p i ri" using uf_inv_rooted by blast
        from True False have "length p \<le> j" by simp
        then have "uf_find p j = Some (Inl IndexError)" by (rule find_out_of_range)
        with rooted_find[OF ri] show ?thesis
          unfolding keep unfolding c by (simp add: kruskal_loop.simps(2))
      next
        case False
        then have "uf_find p i = Some (Inl IndexError)" by (simp add: find_out_of_range)
        then show ?thesis unfolding keep unfolding c by (simp add: kruskal_loop.simps(2))
      qed
    qed
  qed
qed

lemma MST_edges_with_same_off_diagonal:
  assumes "length m = length m'"
    and "\<forall>i<length m. length (m ! i) = length (m' ! i) \<and>
           (\<forall>j<length (m ! i). i \<noteq> j \<longrightarrow> m ! i ! j = m' ! i ! j)"
  shows "MST_edges_with ex m ws mx = MST_edges_with ex m' ws mx"
proof -
  have r: "rel_sum (=) (list_all2 same_off_diagonal)
             (pairs_rows ex ws (enumerate 0 m) []) (pairs_rows ex ws (enumerate 0 m') [])"
    using enumerate_same_off_diagonal[OF assms] by (rule pairs_rows_same_off_diagonal) simp
  show ?thesis
  proof (cases "pairs_rows ex ws (enumerate 0 m) []")
    case (Inl e)
    with r have "pairs_rows ex ws (enumerate 0 m') [] = Inl e"
      by (cases "pairs_rows ex ws (enumerate 0 m') []") simp_all
    with Inl show ?thesis by (simp add: MST_edges_with_def sorted_candidates_def)
  next
    case (Inr al)
    with r obtain al' where al': "pairs_rows ex ws (enumerate 0 m') [] = Inr al'"
      and rel: "list_all2 same_off_diagonal al al'"
      by (cases "pairs_rows ex ws (enumerate 0 m') []") simp_all
    let ?key = "\<lambda>x :: (nat \<times> nat) \<times> pyfloat. nan_key (snd x)"
    let ?cs = "py_sorted ?key mx al" and ?cs' = "py_sorted ?key mx al'"
    let ?p = "UnionFind (length m)"
    have sc: "sorted_candidates ex m ws mx = Inr ?cs" "sorted_candidates ex m' ws mx = Inr ?cs'"
      using Inr al' by (simp_all add: sorted_candidates_def)
    have f: "filter off_diagonal (map fst ?cs) = filter off_diagonal (map fst ?cs')"
    proof -
      have "filter off_diagonal (map fst ?cs) = map fst (filter (\<lambda>x. off_diagonal (fst x)) ?cs)"
        by (simp add: filter_map comp_def)
      also have "\<dots> = map fst (py_sorted ?key mx (filter (\<lambda>x. off_diagonal (fst x)) al))"
        by (simp only: py_sorted_filter)
      also have "\<dots> = map fst (py_sorted ?key mx (filter (\<lambda>x. off_diagonal (fst x)) al'))"
        by (simp only: same_off_diagonal_filter[OF rel])
      also have "\<dots> = map fst (filter (\<lambda>x. off_diagonal (fst x)) ?cs')"
        by (simp only: py_sorted_filter)
      also have "\<dots> = filter off_diagonal (map fst ?cs')"
        by (simp add: filter_map comp_def)
      finally show ?thesis .
    qed
    have d: "\<forall>c \<in> set (map fst ?cs). fst c = snd c \<longrightarrow> fst c < length ?p"
      using sorted_candidates_ok[OF sc(1)] by (auto simp: cand_ok_def UnionFind_def)
    have d': "\<forall>c \<in> set (map fst ?cs'). fst c = snd c \<longrightarrow> fst c < length ?p"
      using sorted_candidates_ok[OF sc(2)] assms(1) by (auto simp: cand_ok_def UnionFind_def)
    have "kruskal_loop (map fst ?cs) ?p [] = kruskal_loop (filter off_diagonal (map fst ?cs)) ?p []"
      using uf_inv_init d by (rule kruskal_loop_skip_diagonal)
    also have "\<dots> = kruskal_loop (filter off_diagonal (map fst ?cs')) ?p []"
      by (simp only: f)
    also have "\<dots> = kruskal_loop (map fst ?cs') ?p []"
      using uf_inv_init d' by (rule kruskal_loop_skip_diagonal[symmetric])
    finally show ?thesis using sc assms(1) by (simp add: MST_edges_with_def)
  qed
qed


lemma spans_matrix:
  assumes "\<forall>w \<in> set wt. w \<noteq> []"
  shows "get_pmi_matrix_using_spans (rowwise model) conv (wt @ [[sep], [cls]]) =
           Inr (map (\<lambda>i. map (\<lambda>j. if j = i then NaN
                  else projr (pair_value model (map conv (concat (wt @ [[sep], [cls]]))) wt i j))
                [0..<length wt]) [0..<length wt])"
proof -
  let ?ids = "map conv (concat (wt @ [[sep], [cls]]))"
  have lids: "length ?ids = length (concat wt) + 2" by simp
  have entry: "(if j = i then Inr NaN
                else get_pmi_between_PTBwords (rowwise model) conv i j (wt @ [[sep], [cls]])) =
               Inr (if j = i then NaN else projr (pair_value model ?ids wt i j))"
    if "i < length wt" "j < length wt" for i j
  proof (cases "j = i")
    case True
    then show ?thesis by simp
  next
    case False
    from assms that(1) have ne: "wt ! i \<noteq> []" by simp
    from False single_pair_value[OF that, of model conv sep cls]
      pair_value_Inr[OF that ne lids, of model]
    show ?thesis by simp
  qed
  have row: "sequence_res (map (\<lambda>j. if j = i then Inr NaN
                else get_pmi_between_PTBwords (rowwise model) conv i j (wt @ [[sep], [cls]])) [0..<length wt]) =
             Inr (map (\<lambda>j. if j = i then NaN else projr (pair_value model ?ids wt i j)) [0..<length wt])"
    if "i < length wt" for i
  proof (rule sequence_res_cong_Inr, rule ballI)
    fix j assume "j \<in> set [0..<length wt]"
    then have "j < length wt" by simp
    with that show "(if j = i then Inr NaN
                else get_pmi_between_PTBwords (rowwise model) conv i j (wt @ [[sep], [cls]])) =
               Inr (if j = i then NaN else projr (pair_value model ?ids wt i j))"
      by (rule entry)
  qed
  have "sequence_res (map (\<lambda>i. sequence_res (map (\<lambda>j. if j = i then Inr NaN
                else get_pmi_between_PTBwords (rowwise model) conv i j (wt @ [[sep], [cls]])) [0..<length wt]))
          [0..<length wt]) =
        Inr (map (\<lambda>i. map (\<lambda>j. if j = i then NaN else projr (pair_value model ?ids wt i j))
                [0..<length wt]) [0..<length wt])"
  proof (rule sequence_res_cong_Inr, rule ballI)
    fix i assume "i \<in> set [0..<length wt]"
    then have "i < length wt" by simp
    then show "sequence_res (map (\<lambda>j. if j = i then Inr NaN
                else get_pmi_between_PTBwords (rowwise model) conv i j (wt @ [[sep], [cls]])) [0..<length wt]) =
             Inr (map (\<lambda>j. if j = i then NaN else projr (pair_value model ?ids wt i j)) [0..<length wt])"
      by (rule row)
  qed
  then show ?thesis by (simp add: get_pmi_matrix_using_spans_def Let_def)
qed

text \<open>
  C4. The word-pair loop of the single-pair strategy stores NaN at every \<open>[i][i]\<close>; on a
  sentence whose words all have a sub-token, with a model that answers row by row, it returns a
  square matrix with one row per word.
  The spanning-tree extractor does keep the diagonal pairs among its sorted candidates, but
  they never change its result: it always returns, two matrices of the same shape that agree
  off the diagonal give the same result (the same edges in the same order, or the same error),
  and no returned edge joins a word to itself. The batched strategy does not store NaN on the
  diagonal: it predicts the pair \<open>(i, i)\<close> like any other.
\<close>

theorem span_diagonal_nan_and_tree_ignores_diagonal:
  fixes model :: "pyfloat predictor"
  assumes "\<forall>w \<in> set word_tokens. w \<noteq> []"
    and "length matrix = length matrix'"
    and "\<forall>i<length matrix. length (matrix ! i) = length (matrix' ! i) \<and>
           (\<forall>j<length (matrix ! i). i \<noteq> j \<longrightarrow> matrix ! i ! j = matrix' ! i ! j)"
  shows "(\<exists>pmis. get_pmi_matrix_using_spans (rowwise model) convert_tokens_to_ids
                    (word_tokens @ [[sep], [cls]]) = Inr pmis \<and>
            length pmis = length word_tokens \<and>
            (\<forall>i<length word_tokens. length (pmis ! i) = length word_tokens \<and>
               pmis ! i ! i = NaN)) \<and>
         (\<exists>r. MST_edges_with excluded matrix words maximum_spanning_tree = Some r \<and>
            MST_edges_with excluded matrix' words maximum_spanning_tree = Some r \<and>
            (\<forall>es i. r = Inr es \<longrightarrow> (i, i) \<notin> set es))"
proof -
  let ?V = "length word_tokens"
  let ?ids = "map convert_tokens_to_ids (concat (word_tokens @ [[sep], [cls]]))"
  let ?pmis = "map (\<lambda>i. map (\<lambda>j. if j = i then NaN
                  else projr (pair_value model ?ids word_tokens i j)) [0..<?V]) [0..<?V]"
  have "get_pmi_matrix_using_spans (rowwise model) convert_tokens_to_ids
          (word_tokens @ [[sep], [cls]]) = Inr ?pmis"
    using assms(1) by (rule spans_matrix)
  moreover have "length ?pmis = ?V" by simp
  moreover have "\<forall>i<?V. length (?pmis ! i) = ?V \<and> ?pmis ! i ! i = NaN" by simp
  ultimately have first: "\<exists>pmis. get_pmi_matrix_using_spans (rowwise model) convert_tokens_to_ids
                    (word_tokens @ [[sep], [cls]]) = Inr pmis \<and>
            length pmis = ?V \<and> (\<forall>i<?V. length (pmis ! i) = ?V \<and> pmis ! i ! i = NaN)"
    by blast
  from MST_edges_with_result[of excluded matrix words maximum_spanning_tree]
  obtain r where r: "MST_edges_with excluded matrix words maximum_spanning_tree = Some r"
    and inv: "\<forall>es. r = Inr es \<longrightarrow> (\<exists>p. kruskal_inv p es)"
    by blast
  have same: "MST_edges_with excluded matrix' words maximum_spanning_tree = Some r"
    using MST_edges_with_same_off_diagonal[OF assms(2,3), of excluded words maximum_spanning_tree] r
    by simp
  have "(i, i) \<notin> set es" if "r = Inr es" for es i
  proof -
    from inv that obtain p where "kruskal_inv p es" by blast
    then have "cycle_free es" by (simp add: kruskal_inv_def)
    then show ?thesis using cycle_free_no_self_loop[of es i i] by blast
  qed
  with r same have second: "\<exists>r. MST_edges_with excluded matrix words maximum_spanning_tree = Some r \<and>
            MST_edges_with excluded matrix' words maximum_spanning_tree = Some r \<and>
            (\<forall>es i. r = Inr es \<longrightarrow> (i, i) \<notin> set es)"
    by blast
  from first second show ?thesis by (rule conjI)
qed

theorem span_diagonal_nan_and_tree_ignores_diagonal_witness:
  "get_pmi_matrix_using_spans
     (rowwise (\<lambda>ids pm tm v. Num (Fin (- sum_list (pm ! 0) + real_of_int v * sum_list (tm ! 0)))))
     (\<lambda>t. int (length t)) [[''the''], [''cat'', ''s''], [''<sep>''], [''<cls>'']] =
     Inr [[NaN, Num (Fin 2)], [Num (Fin 2), NaN]] \<and>
   MST_edges [[NaN, Num (Fin 3)], [Num (Fin 4), NaN]] [''the'', ''cats''] True =
     Some (Inr [(1, 0)]) \<and>
   MST_edges [[Num (Fin 5), Num (Fin 3)], [Num (Fin 4), Num (Fin 7)]] [''the'', ''cats''] True =
     Some (Inr [(1, 0)])"
proof -
  let ?m = "\<lambda>(ids :: int list) (pm :: real list list) (tm :: real list list) (v :: int).
              Num (Fin (- sum_list (pm ! 0) + real_of_int v * sum_list (tm ! 0)))"
  let ?conv = "\<lambda>t :: string. int (length t)"
  let ?M = "[[NaN, Num (Fin 3)], [Num (Fin 4), NaN]]"
  let ?M' = "[[Num (Fin 5), Num (Fin 3)], [Num (Fin 4), Num (Fin 7)]]"
  have h1: "\<forall>w \<in> set [[''the''], [''cat'', ''s'']]. w \<noteq> []" by simp
  have h2: "length ?M = length ?M'" by simp
  have h3: "\<forall>i<length ?M. length (?M ! i) = length (?M' ! i) \<and>
              (\<forall>j<length (?M ! i). i \<noteq> j \<longrightarrow> ?M ! i ! j = ?M' ! i ! j)"
    by (auto simp: less_Suc_eq numeral_2_eq_2)
  from span_diagonal_nan_and_tree_ignores_diagonal[OF h1 h2 h3,
      of ?m ?conv "''<sep>''" "''<cls>''" excluded_span "[''the'', ''cats'']" True]
  obtain pmis r where
    p: "get_pmi_matrix_using_spans (rowwise ?m) ?conv [[''the''], [''cat'', ''s''], [''<sep>''], [''<cls>'']] = Inr pmis"
    and d: "pmis ! 0 ! 0 = NaN"
    and t: "MST_edges ?M [''the'', ''cats''] True = Some r"
    and t': "MST_edges ?M' [''the'', ''cats''] True = Some r"
    by (auto simp: MST_edges_def)
  have e1: "get_pmi_matrix_using_spans (rowwise ?m) ?conv [[''the''], [''cat'', ''s''], [''<sep>''], [''<cls>'']] =
              Inr [[NaN, Num (Fin 2)], [Num (Fin 2), NaN]]"
    by code_simp
  have e2: "MST_edges ?M [''the'', ''cats''] True = Some (Inr [(1, 0)])"
    by code_simp
  from p d t t' e1 e2 show ?thesis by simp
qed

theorem batched_diagonal_is_a_number:
  "ptb_tokenlist_to_pmi_matrix
     (rowwise (\<lambda>ids pm tm v. Num (Fin (- sum_list (pm ! 0) + real_of_int v * sum_list (tm ! 0)))))
     (\<lambda>t. int (length t)) 64 [[''the''], [''cat'', ''s''], [''<sep>''], [''<cls>'']] =
     Inr [[Num (Fin 0), Num (Fin 2)], [Num (Fin 2), Num (Fin 1)]] \<and>
   Num (Fin 0) \<noteq> NaN \<and> Num (Fin 1) \<noteq> NaN"
proof -
  have "ptb_tokenlist_to_pmi_matrix
     (rowwise (\<lambda>ids pm tm v. Num (Fin (- sum_list (pm ! 0) + real_of_int v * sum_list (tm ! 0)))))
     (\<lambda>t. int (length t)) 64 [[''the''], [''cat'', ''s''], [''<sep>''], [''<cls>'']] =
     Inr [[Num (Fin 0), Num (Fin 2)], [Num (Fin 2), Num (Fin 1)]]"
    by code_simp
  then show ?thesis by simp
qed

end
